theory Spec2Isabelle
  imports Main "HOL-Library.Word"
begin

section \<open>VLD's private heap: vldheap.cpp\<close>

text \<open>
  Pointers and \<^verbatim>\<open>size_t\<close> values are words of the pointer width \<open>'a\<close>
  (32 bits in the x86 build, 64 bits in the x64 build); \<^verbatim>\<open>nullptr\<close> is the word 0.
  \<^verbatim>\<open>int\<close> is a 32-bit word read as two's complement.

  A call either returns, or stops the program: a failed \<^verbatim>\<open>assert\<close> aborts, and a
  read or write through a pointer that addresses no block of the private heap is
  undefined behaviour.
\<close>

datatype error = AssertFailed | InvalidAccess

subsection \<open>Block header and macros of vldheap.h\<close>

text \<open>
  Modelled from the spec: the declaration of \<^verbatim>\<open>vldblockheader_t\<close> (vldheap.h is not
  among the sources). The fields are those vldheap.cpp reads and writes and the spec's
  data model lists: the two list pointers, the origin file and line, the usable size
  (field \<^verbatim>\<open>size\<close>) and the serial number.
\<close>

record (overloaded) 'a vldblockheader_t =
  "next" :: "'a word"
  "prev" :: "'a word"
  "file" :: "'a word"
  "line" :: "32 word"
  size_bytes :: "'a word"
  serialNumber :: "'a word"

text \<open>
  Modelled from the spec: the macros \<^verbatim>\<open>VLDBLOCKDATA\<close> and \<^verbatim>\<open>VLDBLOCKHEADER\<close> of
  vldheap.h. The data section starts at the first byte after the header, and the header
  is recovered from a data pointer by the same fixed offset. The offset
  \<^verbatim>\<open>sizeof(vldblockheader_t)\<close> is a parameter.
\<close>

definition VLDBLOCKDATA :: "'a::len word \<Rightarrow> 'a word \<Rightarrow> 'a word" where
  "VLDBLOCKDATA sizeof_hdr h = h + sizeof_hdr"

definition VLDBLOCKHEADER :: "'a::len word \<Rightarrow> 'a word \<Rightarrow> 'a word" where
  "VLDBLOCKHEADER sizeof_hdr d = d - sizeof_hdr"

subsection \<open>Global state\<close>

text \<open>
  The private heap \<^verbatim>\<open>g_vldHeap\<close> is a partial map from the address of each allocated
  block to the header stored at its start. \<open>serialnumber\<close> is the static local counter
  of \<^verbatim>\<open>vldnew\<close>. \<open>heap_mutex\<close> tells whether the mutex of \<^verbatim>\<open>get_heap_mutex\<close> is held.
  \<open>oscalls\<close> is a ghost log: one entry per call of \<^verbatim>\<open>RtlAllocateHeap\<close> or
  \<^verbatim>\<open>RtlFreeHeap\<close>, with the value of \<open>heap_mutex\<close> at the moment of the call.
\<close>

datatype 'w oscall = AllocCall 'w | FreeCall 'w

record (overloaded) 'a vldstate =
  g_vldBlockList :: "'a word"
  g_vldHeap :: "'a word \<Rightarrow> 'a vldblockheader_t option"
  serialnumber :: "'a word"
  heap_mutex :: bool
  oscalls :: "('a word oscall \<times> bool) list"

text \<open>The state when the module image has just been loaded: the static initialisers.\<close>

definition vld_init :: "'a::len vldstate" where
  "vld_init = \<lparr>g_vldBlockList = 0, g_vldHeap = Map.empty, serialnumber = 0,
               heap_mutex = False, oscalls = []\<rparr>"

subsection \<open>Field access through a pointer\<close>

definition set_next ::
  "'a::len word \<Rightarrow> 'a word \<Rightarrow> ('a word \<Rightarrow> 'a vldblockheader_t option)
    \<Rightarrow> error + ('a word \<Rightarrow> 'a vldblockheader_t option)" where
  "set_next p v h = (case h p of None \<Rightarrow> Inl InvalidAccess
                     | Some b \<Rightarrow> Inr (h(p \<mapsto> b\<lparr>next := v\<rparr>)))"

definition set_prev ::
  "'a::len word \<Rightarrow> 'a word \<Rightarrow> ('a word \<Rightarrow> 'a vldblockheader_t option)
    \<Rightarrow> error + ('a word \<Rightarrow> 'a vldblockheader_t option)" where
  "set_prev p v h = (case h p of None \<Rightarrow> Inl InvalidAccess
                     | Some b \<Rightarrow> Inr (h(p \<mapsto> b\<lparr>prev := v\<rparr>)))"

subsection \<open>vldnew\<close>

text \<open>
  \<open>os_result\<close> is what \<^verbatim>\<open>RtlAllocateHeap(g_vldHeap, 0x0, size + sizeof(vldblockheader_t))\<close>
  returns in this call: 0 when the allocation fails, the address of the new block
  otherwise. The new block's bytes are not read before they are written; its \<open>next\<close>
  and \<open>prev\<close> fields are shown as 0 until lines 184 and 188 assign them. The requested
  size \<^verbatim>\<open>size + sizeof(vldblockheader_t)\<close> is a \<^verbatim>\<open>size_t\<close> sum and is recorded in the log;
  the model does not follow the extent of a block.
  The result is the returned pointer and the new state.
\<close>

definition vldnew ::
  "'a::len word \<Rightarrow> 'a word \<Rightarrow> 'a word \<Rightarrow> 'a word \<Rightarrow> 32 word \<Rightarrow> 'a vldstate
    \<Rightarrow> error + ('a word \<times> 'a vldstate)" where
  "vldnew sizeof_hdr os_result sz fname lineno s =
    (if \<not> 0 < sz then Inl AssertFailed
     else if fname = 0 then Inl AssertFailed
     else if \<not> 0 < sint lineno then Inl AssertFailed
     else
       let header = os_result;
           s1 = s\<lparr>oscalls := oscalls s @ [(AllocCall (sz + sizeof_hdr), heap_mutex s)]\<rparr>
       in if header = 0 then Inr (0, s1)
          else
            let h1 = (g_vldHeap s1)(header \<mapsto>
                       \<lparr>next = 0, prev = 0, file = fname, line = lineno,
                        size_bytes = sz, serialNumber = serialnumber s1\<rparr>);
                s2 = s1\<lparr>g_vldHeap := h1, serialnumber := serialnumber s1 + 1\<rparr>;
                s3 = s2\<lparr>heap_mutex := True\<rparr>
            in case set_next header (g_vldBlockList s3) (g_vldHeap s3) of
                 Inl e \<Rightarrow> Inl e
               | Inr h2 \<Rightarrow>
                  (case h2 header of
                     None \<Rightarrow> Inl InvalidAccess
                   | Some hd1 \<Rightarrow>
                      (case (if next hd1 \<noteq> 0 then set_prev (next hd1) header h2 else Inr h2) of
                         Inl e \<Rightarrow> Inl e
                       | Inr h3 \<Rightarrow>
                          (case set_prev header 0 h3 of
                             Inl e \<Rightarrow> Inl e
                           | Inr h4 \<Rightarrow>
                              Inr (VLDBLOCKDATA sizeof_hdr header,
                                   s3\<lparr>g_vldHeap := h4, g_vldBlockList := header,
                                      heap_mutex := False\<rparr>)))))"

subsection \<open>vlddelete\<close>

text \<open>
  \<^verbatim>\<open>RtlFreeHeap(g_vldHeap, 0x0, header)\<close> releases the block at \<open>header\<close> and reports
  whether there was such a block.
\<close>

definition RtlFreeHeap ::
  "('a::len word \<Rightarrow> 'a vldblockheader_t option) \<Rightarrow> 'a word
    \<Rightarrow> bool \<times> ('a word \<Rightarrow> 'a vldblockheader_t option)" where
  "RtlFreeHeap h header = (h header \<noteq> None, h(header := None))"

definition vlddelete ::
  "'a::len word \<Rightarrow> 'a word \<Rightarrow> 'a vldstate \<Rightarrow> error + 'a vldstate" where
  "vlddelete sizeof_hdr block s =
    (if block = 0 then Inr s
     else
       let header = VLDBLOCKHEADER sizeof_hdr block;
           s1 = s\<lparr>heap_mutex := True\<rparr>
       in case g_vldHeap s1 header of
            None \<Rightarrow> Inl InvalidAccess
          | Some hp \<Rightarrow>
             (case (if prev hp \<noteq> 0
                    then (case set_next (prev hp) (next hp) (g_vldHeap s1) of
                            Inl e \<Rightarrow> Inl e
                          | Inr h' \<Rightarrow> Inr (s1\<lparr>g_vldHeap := h'\<rparr>))
                    else Inr (s1\<lparr>g_vldBlockList := next hp\<rparr>)) of
                Inl e \<Rightarrow> Inl e
              | Inr s2 \<Rightarrow>
                 (case g_vldHeap s2 header of
                    None \<Rightarrow> Inl InvalidAccess
                  | Some hn \<Rightarrow>
                     (case (if next hn \<noteq> 0 then set_prev (next hn) (prev hn) (g_vldHeap s2)
                            else Inr (g_vldHeap s2)) of
                        Inl e \<Rightarrow> Inl e
                      | Inr h3 \<Rightarrow>
                         (case RtlFreeHeap h3 header of
                            (freed, h4) \<Rightarrow>
                              let s3 = s2\<lparr>g_vldHeap := h4,
                                         oscalls := oscalls s2 @ [(FreeCall header, heap_mutex s2)]\<rparr>
                              in if \<not> freed then Inl AssertFailed
                                 else Inr (s3\<lparr>heap_mutex := False\<rparr>))))))"

subsection \<open>Sequences of calls\<close>

text \<open>
  \<open>New r sz f l\<close> is a call \<^verbatim>\<open>vldnew(sz, f, l)\<close> in which \<^verbatim>\<open>RtlAllocateHeap\<close> returns
  \<open>r\<close>; \<open>Delete p\<close> is a call \<^verbatim>\<open>vlddelete(p)\<close>. A sequence stops at the first call that
  does not return.
\<close>

datatype 'w op = New 'w 'w 'w "32 word" | Delete 'w

fun run :: "'a::len word \<Rightarrow> 'a word op list \<Rightarrow> 'a vldstate \<Rightarrow> error + 'a vldstate" where
  "run hsz [] s = Inr s"
| "run hsz (New r sz f l # ops) s =
     (case vldnew hsz r sz f l s of Inl e \<Rightarrow> Inl e | Inr (p, s') \<Rightarrow> run hsz ops s')"
| "run hsz (Delete p # ops) s =
     (case vlddelete hsz p s of Inl e \<Rightarrow> Inl e | Inr s' \<Rightarrow> run hsz ops s')"

text \<open>
  The serial numbers written into the headers of the blocks that the successful
  allocations of a sequence obtain, in the order of the calls. Each is read, right after
  its call has returned, from the header recovered from the returned pointer.
\<close>

fun serials :: "'a::len word \<Rightarrow> 'a word op list \<Rightarrow> 'a vldstate \<Rightarrow> 'a word list" where
  "serials hsz [] s = []"
| "serials hsz (New r sz f l # ops) s =
     (case vldnew hsz r sz f l s of
        Inl e \<Rightarrow> []
      | Inr (p, s') \<Rightarrow>
          (if r = 0 then []
           else (case g_vldHeap s' (VLDBLOCKHEADER hsz p) of
                   None \<Rightarrow> [] | Some b \<Rightarrow> [serialNumber b]))
          @ serials hsz ops s')"
| "serials hsz (Delete p # ops) s =
     (case vlddelete hsz p s of Inl e \<Rightarrow> [] | Inr s' \<Rightarrow> serials hsz ops s')"

text \<open>The number of allocations of a sequence in which \<^verbatim>\<open>RtlAllocateHeap\<close> succeeds.\<close>

fun successes :: "'a::len word op list \<Rightarrow> nat" where
  "successes [] = 0"
| "successes (New r sz f l # ops) = (if r = 0 then 0 else 1) + successes ops"
| "successes (Delete p # ops) = successes ops"

text \<open>
  The blocks that are live after a sequence of calls, the most recently allocated first,
  starting from the live blocks \<open>xs\<close>: a successful allocation adds the block that
  \<^verbatim>\<open>RtlAllocateHeap\<close> returned, a deallocation of a non-null pointer removes the block
  whose data section the pointer addresses.
\<close>

fun live_after :: "'a::len word \<Rightarrow> 'a word list \<Rightarrow> 'a word op list \<Rightarrow> 'a word list" where
  "live_after hsz xs [] = xs"
| "live_after hsz xs (New r sz f l # ops) =
     live_after hsz (if r = 0 then xs else r # xs) ops"
| "live_after hsz xs (Delete p # ops) =
     live_after hsz (if p = 0 then xs else remove1 (VLDBLOCKHEADER hsz p) xs) ops"

text \<open>
  The contract of the callers and of the operating system's heap, for a sequence of calls
  that starts with the live blocks \<open>xs\<close>: every allocation satisfies the three
  assertions of \<^verbatim>\<open>vldnew\<close>; \<^verbatim>\<open>RtlAllocateHeap\<close> fails or returns a block that is not live;
  every deallocation is given null or the pointer that \<^verbatim>\<open>vldnew\<close> returned for a block
  that is still live.
\<close>

fun wf_ops :: "'a::len word \<Rightarrow> 'a word list \<Rightarrow> 'a word op list \<Rightarrow> bool" where
  "wf_ops hsz xs [] = True"
| "wf_ops hsz xs (New r sz f l # ops) =
     (0 < sz \<and> f \<noteq> 0 \<and> 0 < sint l \<and> r \<notin> set xs \<and>
      wf_ops hsz (if r = 0 then xs else r # xs) ops)"
| "wf_ops hsz xs (Delete p # ops) =
     ((p = 0 \<or> VLDBLOCKHEADER hsz p \<in> set xs) \<and>
      wf_ops hsz (if p = 0 then xs else remove1 (VLDBLOCKHEADER hsz p) xs) ops)"

subsection \<open>The block list as a doubly-linked list\<close>

text \<open>
  \<open>next_path h p xs\<close>: following the \<open>next\<close> pointers from \<open>p\<close> visits exactly the blocks
  \<open>xs\<close>, in this order, and then reaches the null pointer.
\<close>

fun next_path ::
  "('a::len word \<Rightarrow> 'a vldblockheader_t option) \<Rightarrow> 'a word \<Rightarrow> 'a word list \<Rightarrow> bool" where
  "next_path h p [] = (p = 0)"
| "next_path h p (x # xs) =
     (p = x \<and> x \<noteq> 0 \<and> (case h x of None \<Rightarrow> False | Some b \<Rightarrow> next_path h (next b) xs))"

text \<open>
  \<open>dll h q p xs\<close>: the same, and moreover the \<open>prev\<close> pointer of each block addresses the
  block before it, that of the first block being \<open>q\<close>.
\<close>

fun dll ::
  "('a::len word \<Rightarrow> 'a vldblockheader_t option) \<Rightarrow> 'a word \<Rightarrow> 'a word \<Rightarrow> 'a word list
    \<Rightarrow> bool" where
  "dll h q p [] = (p = 0)"
| "dll h q p (x # xs) =
     (p = x \<and> x \<noteq> 0 \<and>
      (case h x of None \<Rightarrow> False | Some b \<Rightarrow> prev b = q \<and> dll h x (next b) xs))"

definition registry_inv :: "'a::len vldstate \<Rightarrow> 'a word list \<Rightarrow> bool" where
  "registry_inv s xs \<longleftrightarrow>
     dll (g_vldHeap s) 0 (g_vldBlockList s) xs \<and> distinct xs \<and> set xs = dom (g_vldHeap s)"

text \<open>
  The private heap at the start of a load cycle: no block is allocated, the block list
  is empty and the serial-number generator is 0.
\<close>

definition cycle_start :: "'a::len vldstate \<Rightarrow> bool" where
  "cycle_start s \<longleftrightarrow>
     g_vldBlockList s = 0 \<and> g_vldHeap s = Map.empty \<and> serialnumber s = 0"

text \<open>The first block of a list of blocks, null for the empty list.\<close>

definition hd0 :: "'a::len word list \<Rightarrow> 'a word" where
  "hd0 xs = (case xs of [] \<Rightarrow> 0 | x # _ \<Rightarrow> x)"

text \<open>
  The heap after lines 213 to 225 of \<^verbatim>\<open>vlddelete\<close> for the block at \<open>x\<close>, when every
  pointer that is followed addresses a block: the two neighbours are linked to each
  other and the block is released.
\<close>

definition unlinked ::
  "('a::len word \<Rightarrow> 'a vldblockheader_t option) \<Rightarrow> 'a word
    \<Rightarrow> ('a word \<Rightarrow> 'a vldblockheader_t option)" where
  "unlinked h x =
     (let b = the (h x);
          h1 = (if prev b = 0 then h else h(prev b \<mapsto> (the (h (prev b)))\<lparr>next := next b\<rparr>));
          h2 = (if next b = 0 then h1
                else h1(next b \<mapsto> (the (h1 (next b)))\<lparr>prev := prev b\<rparr>))
      in h2(x := None))"

section \<open>Load-cycle state machine\<close>

text \<open>
  Modelled from the spec: the load-cycle counter with the operations \<^verbatim>\<open>onLoad\<close>,
  \<^verbatim>\<open>onUnload\<close> and \<^verbatim>\<open>queryActiveLeakCount\<close> of the spec's section 4.2. The code that runs
  when the module is loaded and unloaded, the interception layer that counts the host's
  allocations and the reporting layer are not among the sources.

  \<open>load_depth\<close> is the load-cycle counter, \<open>vldheap\<close> the state of the private heap,
  \<open>tracked\<close> the number of unresolved tracked allocations of the host, and \<open>reports\<close>
  the final leak reports emitted so far, each with the count it reports.
\<close>

record (overloaded) 'a lifecycle =
  load_depth :: nat
  vldheap :: "'a vldstate"
  tracked :: nat
  reports :: "nat list"

text \<open>
  Modelled from the spec: \<^verbatim>\<open>onLoad\<close>. On the transition from 0 to 1 the private heap is
  created anew, the serial-number generator is zeroed and the registry is empty; a
  nested load only counts.
\<close>

definition onLoad :: "'a::len lifecycle \<Rightarrow> 'a lifecycle" where
  "onLoad ls =
     (if load_depth ls = 0
      then ls\<lparr>load_depth := 1,
              vldheap := (vldheap ls)\<lparr>g_vldBlockList := 0, g_vldHeap := Map.empty,
                                      serialnumber := 0\<rparr>\<rparr>
      else ls\<lparr>load_depth := load_depth ls + 1\<rparr>)"

text \<open>
  Modelled from the spec: \<^verbatim>\<open>onUnload\<close>. On the transition from 1 to 0 the final leak
  report is emitted, the private heap is released and all tracking state is cleared; an
  unload at a greater depth only counts. No unload event arrives at depth 0.
\<close>

definition onUnload :: "'a::len lifecycle \<Rightarrow> 'a lifecycle" where
  "onUnload ls =
     (if load_depth ls = 0 then ls
      else if load_depth ls = 1
      then ls\<lparr>load_depth := 0,
              reports := reports ls @ [tracked ls],
              vldheap := (vldheap ls)\<lparr>g_vldBlockList := 0, g_vldHeap := Map.empty\<rparr>,
              tracked := 0\<rparr>
      else ls\<lparr>load_depth := load_depth ls - 1\<rparr>)"

text \<open>
  Modelled from the spec: \<^verbatim>\<open>queryActiveLeakCount\<close>, which exists only while the counter
  is at least 1.
\<close>

definition queryActiveLeakCount :: "'a::len lifecycle \<Rightarrow> nat option" where
  "queryActiveLeakCount ls = (if 1 \<le> load_depth ls then Some (tracked ls) else None)"

text \<open>
  Modelled from the spec: the interception layer records one more unresolved
  allocation of the host while the tool is active.
\<close>

definition trackAlloc :: "'a::len lifecycle \<Rightarrow> 'a lifecycle" where
  "trackAlloc ls = (if 1 \<le> load_depth ls then ls\<lparr>tracked := tracked ls + 1\<rparr> else ls)"

datatype event = Load | Unload | HostAlloc

fun step :: "event \<Rightarrow> 'a::len lifecycle \<Rightarrow> 'a lifecycle" where
  "step Load ls = onLoad ls"
| "step Unload ls = onUnload ls"
| "step HostAlloc ls = trackAlloc ls"

fun run_events :: "event list \<Rightarrow> 'a::len lifecycle \<Rightarrow> 'a lifecycle" where
  "run_events [] ls = ls"
| "run_events (e # es) ls = run_events es (step e ls)"

text \<open>
  \<open>stays_active d es\<close>: starting at load depth \<open>d\<close>, the events \<open>es\<close> never bring the
  depth down to 0.
\<close>

fun stays_active :: "nat \<Rightarrow> event list \<Rightarrow> bool" where
  "stays_active d [] = (1 \<le> d)"
| "stays_active d (Load # es) = (1 \<le> d \<and> stays_active (d + 1) es)"
| "stays_active d (Unload # es) = (2 \<le> d \<and> stays_active (d - 1) es)"
| "stays_active d (HostAlloc # es) = (1 \<le> d \<and> stays_active d es)"

text \<open>The state before the module has ever been loaded.\<close>

definition lifecycle_init :: "'a::len lifecycle" where
  "lifecycle_init = \<lparr>load_depth = 0, vldheap = vld_init, tracked = 0, reports = []\<rparr>"

subsection \<open>The host-visible leak-count query: tests/vld_unload/vld_unload.cpp\<close>

text \<open>
  Modelled from the spec: \<^verbatim>\<open>GetModuleHandle(sVld_dll)\<close> finds the module exactly while it
  is loaded, and \<^verbatim>\<open>GetProcAddress\<close> finds the module's exported entry point of the given
  name. The entry point \<^verbatim>\<open>VLDGetLeaksCount\<close> of the module is \<^verbatim>\<open>queryActiveLeakCount\<close>,
  its result converted to \<^verbatim>\<open>UINT\<close>; a call into a module that is not loaded is an
  invalid access.
\<close>

definition GetModuleHandle :: "'a::len lifecycle \<Rightarrow> bool" where
  "GetModuleHandle ls \<longleftrightarrow> 1 \<le> load_depth ls"

definition GetProcAddress :: "string \<Rightarrow> ('a::len lifecycle \<Rightarrow> error + 32 word) option" where
  "GetProcAddress name =
     (if name = ''VLDGetLeaksCount''
      then Some (\<lambda>ls. case queryActiveLeakCount ls of
                         None \<Rightarrow> Inl InvalidAccess
                       | Some n \<Rightarrow> Inr (of_nat n))
      else None)"

text \<open>
  The helper \<^verbatim>\<open>VLDGetLeaksCount\<close> of the test, lines 15 to 27. Its result type is
  \<^verbatim>\<open>UINT\<close>, so \<^verbatim>\<open>return -1\<close> returns the word \<open>- 1\<close>; the test reads the result as an
  \<^verbatim>\<open>int\<close>.
\<close>

definition VLDGetLeaksCount :: "'a::len lifecycle \<Rightarrow> error + 32 word" where
  "VLDGetLeaksCount ls =
     (let vld_module = GetModuleHandle ls
      in if vld_module
         then (case GetProcAddress ''VLDGetLeaksCount'' of
                 None \<Rightarrow> Inl AssertFailed
               | Some func \<Rightarrow> func ls)
         else Inr (- 1))"

subsection \<open>The test TestUnloadDlls2: tests/vld_unload/vld_unload.cpp\<close>

text \<open>
  Modelled from the spec: \<^verbatim>\<open>LoadLibrary\<close> of \<^verbatim>\<open>vld_dll1.dll\<close> or \<^verbatim>\<open>vld_dll2.dll\<close> is a load
  event of the module followed by one allocation of the host that is never freed (each
  library leaks one block), and \<^verbatim>\<open>FreeLibrary\<close> of either is an unload event.
\<close>

definition LoadLibrary :: "'a::len lifecycle \<Rightarrow> 'a lifecycle" where
  "LoadLibrary ls = trackAlloc (onLoad ls)"

definition FreeLibrary :: "'a::len lifecycle \<Rightarrow> 'a lifecycle" where
  "FreeLibrary ls = onUnload ls"

text \<open>
  \<^verbatim>\<open>ExpectLeakCount(expected, actual)\<close>, lines 45 to 52, as the truth value of its
  assertion; \<open>actual\<close> is the \<^verbatim>\<open>UINT\<close> result of the query assigned to an \<^verbatim>\<open>int\<close>.
\<close>

definition ExpectLeakCount :: "int \<Rightarrow> error + 32 word \<Rightarrow> bool" where
  "ExpectLeakCount expected actual =
     (case actual of Inl e \<Rightarrow> False | Inr v \<Rightarrow> expected = sint v)"

text \<open>
  \<^verbatim>\<open>TestUnloadDlls2\<close>, lines 91 to 106: the test passes when every assertion holds.
\<close>

definition TestUnloadDlls2 :: "'a::len lifecycle \<Rightarrow> bool" where
  "TestUnloadDlls2 ls0 =
     (let hModule3 = LoadLibrary ls0;
          w = VLDGetLeaksCount hModule3;
          hModule4 = LoadLibrary hModule3;
          x = VLDGetLeaksCount hModule4;
          ls3 = FreeLibrary hModule4;
          y = VLDGetLeaksCount ls3;
          ls4 = FreeLibrary ls3;
          z = VLDGetLeaksCount ls4
      in \<not> GetModuleHandle ls0 \<and> ExpectLeakCount 1 w \<and> ExpectLeakCount 2 x \<and>
         ExpectLeakCount 2 y \<and> ExpectLeakCount (- 1) z)"

section \<open>Sample call sequences\<close>

text \<open>
  A short sequence on the x86 build (header size 24): three successful allocations, one
  in which \<^verbatim>\<open>RtlAllocateHeap\<close> fails, the release of the second block and a
  \<^verbatim>\<open>vlddelete(nullptr)\<close>.
\<close>

definition sample_ops :: "32 word op list" where
  "sample_ops =
     [New 0x1000 8 0x400 12, New 0x2000 4 0x400 13, New 0 4 0x400 14,
      New 0x3000 4 0x400 15, Delete 0x2018, Delete 0]"



section \<open>Concurrent calls\<close>

text \<open>
  Any number of threads call \<^verbatim>\<open>vldnew\<close> and \<^verbatim>\<open>vlddelete\<close>; the calls are interleaved step
  by step. A thread is at a program point of one of the two functions, which holds the
  call's local variables, or is \<open>Idle\<close> between two calls. Outside the critical section
  a step makes at most one access to a variable that other threads can reach (the
  read and the write of \<^verbatim>\<open>serialnumber++\<close> at line 179 are two steps); inside, a step is
  one statement.
\<close>

datatype 'w pc =
    Idle
  | N_alloc 'w 'w "32 word"
  | N_fill 'w 'w 'w "32 word"
  | N_load 'w 'w
  | N_store 'w 'w 'w
  | N_lock 'w
  | N_next 'w
  | N_nextprev 'w
  | N_prev 'w
  | N_head 'w
  | N_ret 'w
  | D_lock 'w
  | D_prev 'w
  | D_next 'w
  | D_free 'w
  | D_ret 'w bool

text \<open>
  What the environment supplies to a step: the arguments of a new call, or the result of
  \<^verbatim>\<open>RtlAllocateHeap\<close>; \<open>Go\<close> for every other step.
\<close>

datatype 'w input = Call_new 'w 'w "32 word" | Call_delete 'w | OS_result 'w | Go

text \<open>
  The kinds of access that the ghost \<open>trace\<close> records: a call of \<^verbatim>\<open>RtlAllocateHeap\<close>, a
  call of \<^verbatim>\<open>RtlFreeHeap\<close>, a statement that reads or writes the list head or the links of
  a block, and an access to \<^verbatim>\<open>serialnumber\<close>.
\<close>

datatype access = OsAlloc | OsFree | Registry | Serial

text \<open>
  \<open>mem\<close> is the memory shared by all threads, \<open>owner\<close> the thread that holds the mutex of
  \<^verbatim>\<open>get_heap_mutex\<close>, \<open>threads\<close> the program point of every thread. Three fields are
  ghosts: \<open>linked\<close> lists the blocks that line 189 has made the list head and lines 213
  to 218 have not yet bypassed, the latest first; \<open>returned\<close> lists the blocks whose
  pointer \<^verbatim>\<open>vldnew\<close> has returned and no call of \<^verbatim>\<open>vlddelete\<close> has received yet; \<open>trace\<close>
  records every access with the thread that makes it and whether that thread holds the
  mutex at that moment.
\<close>

record (overloaded) 'a config =
  mem :: "'a vldstate"
  owner :: "nat option"
  threads :: "nat \<Rightarrow> 'a word pc"
  linked :: "'a word list"
  returned :: "'a word list"
  trace :: "(nat \<times> access \<times> bool) list"

datatype 'c outcome = Blocked | Fault error | Next 'c

definition conc_init :: "'a::len config" where
  "conc_init = \<lparr>mem = vld_init, owner = None, threads = (\<lambda>t. Idle), linked = [],
                returned = [], trace = []\<rparr>"

definition logged :: "nat \<Rightarrow> access \<Rightarrow> 'a::len config \<Rightarrow> 'a config" where
  "logged t a c = c\<lparr>trace := trace c @ [(t, a, owner c = Some t)]\<rparr>"

definition goto :: "nat \<Rightarrow> 'a::len word pc \<Rightarrow> 'a config \<Rightarrow> 'a config" where
  "goto t p c = c\<lparr>threads := (threads c)(t := p)\<rparr>"

definition set_heap ::
  "('a::len word \<Rightarrow> 'a vldblockheader_t option) \<Rightarrow> 'a config \<Rightarrow> 'a config" where
  "set_heap h c = c\<lparr>mem := (mem c)\<lparr>g_vldHeap := h\<rparr>\<rparr>"

text \<open>
  \<open>acquire\<close> is the constructor of the \<^verbatim>\<open>std::scoped_lock\<close>: the thread waits while another
  thread holds the mutex. \<open>release\<close> is its destructor at the end of the function.
\<close>

definition acquire :: "nat \<Rightarrow> 'a::len word pc \<Rightarrow> 'a config \<Rightarrow> 'a config outcome" where
  "acquire t p c =
     (if owner c = None
      then Next (goto t p (c\<lparr>owner := Some t, mem := (mem c)\<lparr>heap_mutex := True\<rparr>\<rparr>))
      else Blocked)"

definition release :: "'a::len config \<Rightarrow> 'a config" where
  "release c = c\<lparr>owner := None, mem := (mem c)\<lparr>heap_mutex := False\<rparr>\<rparr>"

text \<open>
  One step of thread \<open>t\<close>, by program point. The comments give the lines of vldheap.cpp.
\<close>

fun pc_step ::
  "'a::len word \<Rightarrow> nat \<Rightarrow> 'a word input \<Rightarrow> 'a word pc \<Rightarrow> 'a config \<Rightarrow> 'a config outcome" where
  "pc_step hsz t inp Idle c =
     (case inp of
        Call_new sz f l \<Rightarrow>            \<comment> \<open>164 to 166\<close>
          (if \<not> 0 < sz then Fault AssertFailed
           else if f = 0 then Fault AssertFailed
           else if \<not> 0 < sint l then Fault AssertFailed
           else Next (goto t (N_alloc sz f l) c))
      | Call_delete block \<Rightarrow>          \<comment> \<open>206 to 209\<close>
          (if block = 0 then Next c
           else Next (goto t (D_lock (VLDBLOCKHEADER hsz block))
                  (c\<lparr>returned := remove1 (VLDBLOCKHEADER hsz block) (returned c)\<rparr>)))
      | _ \<Rightarrow> Blocked)"
| "pc_step hsz t inp (N_alloc sz f l) c =
     (case inp of
        OS_result r \<Rightarrow>                \<comment> \<open>168 to 174\<close>
          (let c1 = logged t OsAlloc (c\<lparr>mem := (mem c)\<lparr>oscalls := oscalls (mem c)
                       @ [(AllocCall (sz + hsz), heap_mutex (mem c))]\<rparr>\<rparr>)
           in if r = 0 then Next (goto t Idle c1)
              else Next (goto t (N_fill r sz f l)
                     (set_heap ((g_vldHeap (mem c1))(r \<mapsto>
                        \<lparr>next = 0, prev = 0, file = 0, line = 0, size_bytes = 0,
                         serialNumber = 0\<rparr>)) c1)))
      | _ \<Rightarrow> Blocked)"
| "pc_step hsz t inp (N_fill header sz f l) c =     \<comment> \<open>177, 178\<close>
     (case g_vldHeap (mem c) header of
        None \<Rightarrow> Fault InvalidAccess
      | Some b \<Rightarrow> Next (goto t (N_load header sz)
                   (set_heap ((g_vldHeap (mem c))(header \<mapsto> b\<lparr>file := f, line := l\<rparr>)) c)))"
| "pc_step hsz t inp (N_load header sz) c =         \<comment> \<open>179, the read of serialnumber\<close>
     Next (goto t (N_store header sz (serialnumber (mem c))) (logged t Serial c))"
| "pc_step hsz t inp (N_store header sz tmp) c =    \<comment> \<open>179, the two writes, and 180\<close>
     (case g_vldHeap (mem c) header of
        None \<Rightarrow> Fault InvalidAccess
      | Some b \<Rightarrow>
          Next (goto t (N_lock header)
            (logged t Serial
              (c\<lparr>mem := (mem c)\<lparr>serialnumber := tmp + 1,
                     g_vldHeap := (g_vldHeap (mem c))(header \<mapsto>
                        b\<lparr>serialNumber := tmp, size_bytes := sz\<rparr>)\<rparr>\<rparr>))))"
| "pc_step hsz t inp (N_lock header) c =            \<comment> \<open>183\<close>
     acquire t (N_next header) c"
| "pc_step hsz t inp (N_next header) c =            \<comment> \<open>184\<close>
     (case set_next header (g_vldBlockList (mem c)) (g_vldHeap (mem c)) of
        Inl e \<Rightarrow> Fault e
      | Inr h \<Rightarrow> Next (goto t (N_nextprev header) (set_heap h (logged t Registry c))))"
| "pc_step hsz t inp (N_nextprev header) c =        \<comment> \<open>185 to 187\<close>
     (case g_vldHeap (mem c) header of
        None \<Rightarrow> Fault InvalidAccess
      | Some b \<Rightarrow>
          (case (if next b \<noteq> 0 then set_prev (next b) header (g_vldHeap (mem c))
                 else Inr (g_vldHeap (mem c))) of
             Inl e \<Rightarrow> Fault e
           | Inr h \<Rightarrow> Next (goto t (N_prev header) (set_heap h (logged t Registry c)))))"
| "pc_step hsz t inp (N_prev header) c =            \<comment> \<open>188\<close>
     (case set_prev header 0 (g_vldHeap (mem c)) of
        Inl e \<Rightarrow> Fault e
      | Inr h \<Rightarrow> Next (goto t (N_head header) (set_heap h (logged t Registry c))))"
| "pc_step hsz t inp (N_head header) c =            \<comment> \<open>189\<close>
     Next (goto t (N_ret header)
       ((logged t Registry c)\<lparr>mem := (mem c)\<lparr>g_vldBlockList := header\<rparr>,
                             linked := header # linked c\<rparr>))"
| "pc_step hsz t inp (N_ret header) c =             \<comment> \<open>192, 193\<close>
     Next (goto t Idle ((release c)\<lparr>returned := header # returned c\<rparr>))"
| "pc_step hsz t inp (D_lock header) c =            \<comment> \<open>212\<close>
     acquire t (D_prev header) c"
| "pc_step hsz t inp (D_prev header) c =            \<comment> \<open>213 to 218\<close>
     (case g_vldHeap (mem c) header of
        None \<Rightarrow> Fault InvalidAccess
      | Some b \<Rightarrow>
          (case (if prev b \<noteq> 0
                 then (case set_next (prev b) (next b) (g_vldHeap (mem c)) of
                         Inl e \<Rightarrow> Inl e
                       | Inr h \<Rightarrow> Inr ((mem c)\<lparr>g_vldHeap := h\<rparr>))
                 else Inr ((mem c)\<lparr>g_vldBlockList := next b\<rparr>)) of
             Inl e \<Rightarrow> Fault e
           | Inr m \<Rightarrow> Next (goto t (D_next header)
                        ((logged t Registry c)\<lparr>mem := m,
                                              linked := remove1 header (linked c)\<rparr>))))"
| "pc_step hsz t inp (D_next header) c =            \<comment> \<open>220 to 222\<close>
     (case g_vldHeap (mem c) header of
        None \<Rightarrow> Fault InvalidAccess
      | Some b \<Rightarrow>
          (case (if next b \<noteq> 0 then set_prev (next b) (prev b) (g_vldHeap (mem c))
                 else Inr (g_vldHeap (mem c))) of
             Inl e \<Rightarrow> Fault e
           | Inr h \<Rightarrow> Next (goto t (D_free header) (set_heap h (logged t Registry c)))))"
| "pc_step hsz t inp (D_free header) c =            \<comment> \<open>225\<close>
     (case RtlFreeHeap (g_vldHeap (mem c)) header of
        (freed, h) \<Rightarrow>
          Next (goto t (D_ret header freed)
            (logged t OsFree
               (c\<lparr>mem := (mem c)\<lparr>g_vldHeap := h,
                      oscalls := oscalls (mem c) @ [(FreeCall header, heap_mutex (mem c))]\<rparr>\<rparr>))))"
| "pc_step hsz t inp (D_ret header freed) c =       \<comment> \<open>226 to 228\<close>
     (if \<not> freed then Fault AssertFailed else Next (goto t Idle (release c)))"

definition thread_step ::
  "'a::len word \<Rightarrow> nat \<Rightarrow> 'a word input \<Rightarrow> 'a config \<Rightarrow> 'a config outcome" where
  "thread_step hsz t inp c = pc_step hsz t inp (threads c t) c"

text \<open>
  A schedule says which thread takes the next step and what the environment supplies
  to it. A thread that waits for the mutex, a thread between two calls that is given no
  call, and a thread in \<^verbatim>\<open>RtlAllocateHeap\<close> that is given no result leave the configuration
  as it is; at every other program point the input is ignored.
\<close>

fun crun ::
  "'a::len word \<Rightarrow> (nat \<times> 'a word input) list \<Rightarrow> 'a config \<Rightarrow> error + 'a config" where
  "crun hsz [] c = Inr c"
| "crun hsz ((t, inp) # sch) c =
     (case thread_step hsz t inp c of
        Blocked \<Rightarrow> crun hsz sch c
      | Fault e \<Rightarrow> Inl e
      | Next c' \<Rightarrow> crun hsz sch c')"

text \<open>
  The contract of the callers and of the operating system's heap at one step: a new
  call of \<^verbatim>\<open>vldnew\<close> satisfies the three assertions; \<^verbatim>\<open>RtlAllocateHeap\<close> fails or returns a
  block that is not allocated; \<^verbatim>\<open>vlddelete\<close> is given null or the pointer that \<^verbatim>\<open>vldnew\<close>
  returned for a block that no call of \<^verbatim>\<open>vlddelete\<close> has received since.
\<close>

fun legal :: "'a::len word \<Rightarrow> 'a word input \<Rightarrow> 'a config \<Rightarrow> bool" where
  "legal hsz (Call_new sz f l) c = (0 < sz \<and> f \<noteq> 0 \<and> 0 < sint l)"
| "legal hsz (Call_delete block) c =
     (block = 0 \<or> VLDBLOCKHEADER hsz block \<in> set (returned c))"
| "legal hsz (OS_result r) c = (r = 0 \<or> g_vldHeap (mem c) r = None)"
| "legal hsz Go c = True"

fun wf_sched :: "'a::len word \<Rightarrow> (nat \<times> 'a word input) list \<Rightarrow> 'a config \<Rightarrow> bool" where
  "wf_sched hsz [] c = True"
| "wf_sched hsz ((t, inp) # sch) c =
     (legal hsz inp c \<and>
      (case thread_step hsz t inp c of
         Blocked \<Rightarrow> wf_sched hsz sch c
       | Fault e \<Rightarrow> True
       | Next c' \<Rightarrow> wf_sched hsz sch c'))"

text \<open>
  What the locking discipline of the code allows in the trace: \<^verbatim>\<open>RtlAllocateHeap\<close> is called
  without the mutex, \<^verbatim>\<open>RtlFreeHeap\<close> and every statement on the list with it.
\<close>

definition trace_ok :: "nat \<times> access \<times> bool \<Rightarrow> bool" where
  "trace_ok e = (case e of (t, a, holds) \<Rightarrow>
       (case a of OsAlloc \<Rightarrow> \<not> holds | OsFree \<Rightarrow> holds | Registry \<Rightarrow> holds | Serial \<Rightarrow> True))"

subsection \<open>The invariant of the interleaved calls\<close>

text \<open>
  \<open>priv\<close>: the block that a thread holds outside the list, allocated and not yet linked
  (lines 177 to 189) or bypassed and not yet released (lines 220 to 225).
  \<open>own\<close>: the block in the list that belongs to the call in progress, linked and not yet
  returned (line 192) or received by \<^verbatim>\<open>vlddelete\<close> and not yet bypassed (lines 209 to 218).
  \<open>in_cs\<close>: the program points between the constructor of the \<^verbatim>\<open>std::scoped_lock\<close> and the
  end of the function.
\<close>

fun priv :: "'w pc \<Rightarrow> 'w option" where
  "priv (N_fill h sz f l) = Some h"
| "priv (N_load h sz) = Some h"
| "priv (N_store h sz tmp) = Some h"
| "priv (N_lock h) = Some h"
| "priv (N_next h) = Some h"
| "priv (N_nextprev h) = Some h"
| "priv (N_prev h) = Some h"
| "priv (N_head h) = Some h"
| "priv (D_next h) = Some h"
| "priv (D_free h) = Some h"
| "priv _ = None"

fun own :: "'w pc \<Rightarrow> 'w option" where
  "own (N_ret h) = Some h"
| "own (D_lock h) = Some h"
| "own (D_prev h) = Some h"
| "own _ = None"

fun in_cs :: "'w pc \<Rightarrow> bool" where
  "in_cs (N_next h) = True"
| "in_cs (N_nextprev h) = True"
| "in_cs (N_prev h) = True"
| "in_cs (N_head h) = True"
| "in_cs (N_ret h) = True"
| "in_cs (D_prev h) = True"
| "in_cs (D_next h) = True"
| "in_cs (D_free h) = True"
| "in_cs (D_ret h f) = True"
| "in_cs _ = False"

text \<open>
  The block list as the thread in the critical section sees it before its next
  statement; \<open>xs\<close> are the linked blocks. In \<^verbatim>\<open>vldnew\<close> the \<open>prev\<close> pointer of the old first
  block addresses the new block from line 186 on. In \<^verbatim>\<open>vlddelete\<close>, after lines 213 to
  218, the list is in order once line 221 will have run.
\<close>

fun shape ::
  "'a::len word pc \<Rightarrow> ('a word \<Rightarrow> 'a vldblockheader_t option) \<Rightarrow> 'a word \<Rightarrow> 'a word list
    \<Rightarrow> bool" where
  "shape (N_next r) h p xs = dll h 0 p xs"
| "shape (N_nextprev r) h p xs =
     (dll h 0 p xs \<and> (case h r of None \<Rightarrow> False | Some b \<Rightarrow> next b = p))"
| "shape (N_prev r) h p xs =
     (dll h r p xs \<and> (case h r of None \<Rightarrow> False | Some b \<Rightarrow> next b = p))"
| "shape (N_head r) h p xs =
     (dll h r p xs \<and> (case h r of None \<Rightarrow> False | Some b \<Rightarrow> next b = p \<and> prev b = 0))"
| "shape (N_ret r) h p xs = dll h 0 p xs"
| "shape (D_prev r) h p xs = dll h 0 p xs"
| "shape (D_next r) h p xs =
     (case h r of
        None \<Rightarrow> False
      | Some b \<Rightarrow>
          (next b = 0 \<or> next b \<in> set xs) \<and>
          dll (if next b = 0 then h
               else h(next b \<mapsto> (the (h (next b)))\<lparr>prev := prev b\<rparr>)) 0 p xs)"
| "shape (D_free r) h p xs = dll h 0 p xs"
| "shape (D_ret r f) h p xs = dll h 0 p xs"
| "shape _ h p xs = False"

text \<open>
  \<open>owned g D X\<close>: the blocks of \<open>D\<close> outside \<open>X\<close> are exactly the blocks that \<open>g\<close> gives to
  the threads, each to one thread.
\<close>

definition owned :: "(nat \<Rightarrow> 'w option) \<Rightarrow> 'w set \<Rightarrow> 'w set \<Rightarrow> bool" where
  "owned g D X \<longleftrightarrow>
     (\<forall>t a. g t = Some a \<longrightarrow> a \<in> D \<and> a \<notin> X) \<and>
     (\<forall>t u a. g t = Some a \<longrightarrow> g u = Some a \<longrightarrow> t = u) \<and>
     (\<forall>a\<in>D. a \<in> X \<or> (\<exists>t. g t = Some a))"

text \<open>
  \<open>LK\<close>: the thread that holds the mutex is the one in a critical section. \<open>SH\<close>: the list
  is in order when the mutex is free, and as \<open>shape\<close> says for the thread that holds it.
\<close>

definition LK :: "(nat \<Rightarrow> 'w pc) \<Rightarrow> nat option \<Rightarrow> bool" where
  "LK T ow \<longleftrightarrow> (\<forall>t. in_cs (T t) \<longleftrightarrow> ow = Some t)"

definition SH ::
  "nat option \<Rightarrow> (nat \<Rightarrow> 'a::len word pc) \<Rightarrow> ('a word \<Rightarrow> 'a vldblockheader_t option) \<Rightarrow> 'a word
    \<Rightarrow> 'a word list \<Rightarrow> bool" where
  "SH ow T h p xs = (case ow of None \<Rightarrow> dll h 0 p xs | Some t \<Rightarrow> shape (T t) h p xs)"

text \<open>
  The invariant of every configuration that the interleaved calls reach: the flag in
  memory follows the owner of the mutex; the linked blocks are allocated; the blocks
  whose pointer a caller holds are linked; every other allocated or linked block is held
  by exactly one call in progress; the list has its shape; no call of \<^verbatim>\<open>RtlFreeHeap\<close> has
  failed; and the trace obeys the locking discipline.
\<close>

definition Inv :: "'a::len config \<Rightarrow> bool" where
  "Inv c \<longleftrightarrow>
     heap_mutex (mem c) = (owner c \<noteq> None) \<and>
     LK (threads c) (owner c) \<and>
     distinct (linked c) \<and> distinct (returned c) \<and>
     0 \<notin> dom (g_vldHeap (mem c)) \<and>
     set (linked c) \<subseteq> dom (g_vldHeap (mem c)) \<and>
     set (returned c) \<subseteq> set (linked c) \<and>
     owned (priv \<circ> threads c) (dom (g_vldHeap (mem c))) (set (linked c)) \<and>
     owned (own \<circ> threads c) (set (linked c)) (set (returned c)) \<and>
     SH (owner c) (threads c) (g_vldHeap (mem c)) (g_vldBlockList (mem c)) (linked c) \<and>
     (\<forall>t r f. threads c t = D_ret r f \<longrightarrow> f) \<and>
     (\<forall>e \<in> set (trace c). trace_ok e)"

text \<open>The number of steps from a program point to the release of the mutex.\<close>

fun cs_left :: "'w pc \<Rightarrow> nat" where
  "cs_left (N_next h) = 5"
| "cs_left (N_nextprev h) = 4"
| "cs_left (N_prev h) = 3"
| "cs_left (N_head h) = 2"
| "cs_left (N_ret h) = 1"
| "cs_left (D_prev h) = 4"
| "cs_left (D_next h) = 3"
| "cs_left (D_free h) = 2"
| "cs_left (D_ret h f) = 1"
| "cs_left _ = 0"

subsection \<open>Sample schedules\<close>

text \<open>
  Three threads on the x86 build. Threads 0 and 1 allocate; thread 1 waits for the mutex
  while thread 0 links its block; thread 2 releases the block of thread 0 and waits for
  the mutex while thread 1 links its block.
\<close>

definition sample_sched :: "(nat \<times> 32 word input) list" where
  "sample_sched =
     [(0, Call_new 8 0x400 12), (1, Call_new 16 0x400 13),
      (0, OS_result 0x1000), (1, OS_result 0x2000),
      (0, Go), (0, Go), (0, Go), (1, Go), (1, Go), (1, Go),
      (0, Go), (1, Go), (0, Go), (1, Go), (0, Go), (0, Go), (0, Go), (0, Go),
      (1, Go), (2, Call_delete 0x1018), (2, Go), (1, Go), (1, Go), (1, Go), (1, Go),
      (2, Go), (1, Go), (2, Go), (2, Go), (2, Go), (2, Go), (2, Go)]"

text \<open>
  Two threads that both read \<^verbatim>\<open>serialnumber\<close> at line 179 before either writes it back.
\<close>

definition race_sched :: "(nat \<times> 32 word input) list" where
  "race_sched =
     [(0, Call_new 8 0x400 12), (1, Call_new 16 0x400 13),
      (0, OS_result 0x1000), (1, OS_result 0x2000),
      (0, Go), (1, Go), (0, Go), (1, Go), (0, Go), (1, Go)]"

text \<open>
  One call of \<^verbatim>\<open>vldnew\<close>, and one of \<^verbatim>\<open>vlddelete\<close>, run by thread \<open>t\<close> from its first to its
  last step with no step of another thread in between.
\<close>

definition new_sched ::
  "nat \<Rightarrow> 'a::len word \<Rightarrow> 'a word \<Rightarrow> 32 word \<Rightarrow> 'a word \<Rightarrow> (nat \<times> 'a word input) list" where
  "new_sched t sz f l r =
     [(t, Call_new sz f l), (t, OS_result r), (t, Go), (t, Go), (t, Go), (t, Go), (t, Go),
      (t, Go), (t, Go), (t, Go), (t, Go)]"

definition delete_sched :: "nat \<Rightarrow> 'a::len word \<Rightarrow> (nat \<times> 'a word input) list" where
  "delete_sched t block = [(t, Call_delete block), (t, Go), (t, Go), (t, Go), (t, Go), (t, Go)]"

section \<open>Properties of the model\<close>

subsection \<open>The doubly-linked block list\<close>

lemma dll_frame: "a \<notin> set xs \<Longrightarrow> dll (h(a := v)) q p xs = dll h q p xs"
  by (induction xs arbitrary: q p) (auto split: option.splits)

lemma dll_dom: "dll h q p xs \<Longrightarrow> set xs \<subseteq> dom h \<and> 0 \<notin> set xs"
  by (induction xs arbitrary: q p) (auto split: option.splits)

lemma dll_hd0: "dll h q p xs \<Longrightarrow> p = hd0 xs"
  by (cases xs) (auto simp: hd0_def)

lemma dll_next_path: "dll h q p xs \<Longrightarrow> next_path h p xs"
  by (induction xs arbitrary: q p) (auto split: option.splits)

lemma dll_mid:
  "dll h q p (ys @ x # zs) \<Longrightarrow> \<exists>b. h x = Some b \<and> prev b = last (q # ys) \<and> next b = hd0 zs"
proof (induction ys arbitrary: q p)
  case Nil
  then show ?case by (auto split: option.splits dest: dll_hd0)
next
  case (Cons y ys)
  then show ?case by (auto split: option.splits)
qed

lemma dll_unlink:
  "dll h q p (ys @ x # zs) \<Longrightarrow> distinct (ys @ x # zs) \<Longrightarrow> q \<notin> set (ys @ x # zs) \<Longrightarrow>
   dll (unlinked h x) q (if ys = [] then hd0 zs else p) (ys @ zs)"
proof (induction ys arbitrary: q p)
  case Nil
  then obtain b where b: "p = x" "x \<noteq> 0" "h x = Some b" "prev b = q" "dll h x (next b) zs"
    by (auto split: option.splits)
  show ?case
  proof (cases zs)
    case Nil
    then show ?thesis by (simp add: hd0_def)
  next
    case (Cons z zs')
    with b obtain bz where bz: "next b = z" "z \<noteq> 0" "h z = Some bz" "prev bz = x" "dll h z (next bz) zs'"
      by (auto split: option.splits)
    from Nil.prems Cons have ne: "q \<noteq> z" "q \<noteq> x" "x \<noteq> z" "q \<notin> set zs'" "x \<notin> set zs'" "z \<notin> set zs'"
      by auto
    define h1 where "h1 = (if q = 0 then h else h(q \<mapsto> (the (h q))\<lparr>next := z\<rparr>))"
    have u: "unlinked h x = (h1(z \<mapsto> bz\<lparr>prev := q\<rparr>))(x := None)"
      using b bz ne by (auto simp: unlinked_def Let_def h1_def)
    have "dll h1 z (next bz) zs'"
      using bz(5) ne by (simp add: h1_def dll_frame)
    then have "dll (unlinked h x) z (next bz) zs'"
      using ne by (simp add: u dll_frame del: fun_upd_apply)
    moreover have "unlinked h x z = Some (bz\<lparr>prev := q\<rparr>)"
      using ne by (simp add: u)
    ultimately show ?thesis using bz Cons
      by (simp add: hd0_def)
  qed
next
  case (Cons y ys)
  then obtain yb where yb: "p = y" "y \<noteq> 0" "h y = Some yb" "prev yb = q" "dll h y (next yb) (ys @ x # zs)"
    by (auto split: option.splits)
  from Cons.prems have d: "distinct (ys @ x # zs)" "y \<notin> set (ys @ x # zs)" by auto
  from Cons.IH[OF yb(5) d] have IH: "dll (unlinked h x) y (if ys = [] then hd0 zs else next yb) (ys @ zs)" .
  from dll_mid[OF yb(5)] obtain b where b: "h x = Some b" "prev b = last (y # ys)" "next b = hd0 zs" by blast
  have z0: "hd0 zs \<noteq> y" using d yb(2) by (cases zs) (auto simp: hd0_def)
  have xy: "x \<noteq> y" using d by auto
  show ?case
  proof (cases "ys = []")
    case True
    then have "unlinked h x y = Some (yb\<lparr>next := hd0 zs\<rparr>)"
      using b yb z0 xy by (auto simp: unlinked_def Let_def)
    then show ?thesis using IH True yb by simp
  next
    case False
    then have "last ys \<noteq> y" using d by (metis UnCI last_in_set set_append)
    then have "unlinked h x y = Some yb"
      using b yb z0 xy False by (auto simp: unlinked_def Let_def)
    then show ?thesis using IH False yb by simp
  qed
qed

lemma dom_unlinked:
  "h x = Some b \<Longrightarrow> prev b = 0 \<or> prev b \<in> dom h \<Longrightarrow> next b = 0 \<or> next b \<in> dom h \<Longrightarrow>
   dom (unlinked h x) = dom h - {x}"
  by (auto simp: unlinked_def Let_def split: if_splits)

lemma vlddelete_unlinked:
  assumes b: "g_vldHeap s (VLDBLOCKHEADER hsz p) = Some b"
    and p: "p \<noteq> 0"
    and pr: "prev b = 0 \<or> (prev b \<in> dom (g_vldHeap s) \<and> prev b \<noteq> VLDBLOCKHEADER hsz p)"
    and nx: "next b = 0 \<or> next b \<in> dom (g_vldHeap s)"
  shows "\<exists>s'. vlddelete hsz p s = Inr s' \<and>
           g_vldHeap s' = unlinked (g_vldHeap s) (VLDBLOCKHEADER hsz p) \<and>
           g_vldBlockList s' = (if prev b = 0 then next b else g_vldBlockList s) \<and>
           serialnumber s' = serialnumber s \<and>
           oscalls s' = oscalls s @ [(FreeCall (VLDBLOCKHEADER hsz p), True)] \<and>
           heap_mutex s' = False"
proof (cases "prev b = 0")
  case True
  show ?thesis
  proof (cases "next b = 0")
    case True
    with \<open>prev b = 0\<close> b p show ?thesis
      by (simp add: vlddelete_def Let_def unlinked_def RtlFreeHeap_def)
  next
    case False
    with nx obtain nb where "g_vldHeap s (next b) = Some nb" by auto
    with False \<open>prev b = 0\<close> b p show ?thesis
      by (auto simp: vlddelete_def Let_def unlinked_def RtlFreeHeap_def set_prev_def)
  qed
next
  case False
  with pr obtain pb where pb: "g_vldHeap s (prev b) = Some pb" "prev b \<noteq> VLDBLOCKHEADER hsz p" by auto
  show ?thesis
  proof (cases "next b = 0")
    case True
    with False pb b p show ?thesis
      by (auto simp: vlddelete_def Let_def unlinked_def RtlFreeHeap_def set_next_def)
  next
    case nz: False
    with nx obtain nb where "g_vldHeap s (next b) = Some nb" by auto
    with False nz pb b p show ?thesis
      by (auto simp: vlddelete_def Let_def unlinked_def RtlFreeHeap_def set_next_def set_prev_def)
  qed
qed

lemma vlddelete_inv:
  assumes inv: "registry_inv s xs" and x: "VLDBLOCKHEADER hsz p \<in> set xs" and p: "p \<noteq> 0"
  shows "\<exists>s'. vlddelete hsz p s = Inr s' \<and> registry_inv s' (remove1 (VLDBLOCKHEADER hsz p) xs) \<and>
           serialnumber s' = serialnumber s \<and> heap_mutex s' = False \<and>
           oscalls s' = oscalls s @ [(FreeCall (VLDBLOCKHEADER hsz p), True)]"
proof -
  let ?x = "VLDBLOCKHEADER hsz p" and ?h = "g_vldHeap s"
  from inv have d: "dll ?h 0 (g_vldBlockList s) xs" "distinct xs" "set xs = dom ?h"
    by (auto simp: registry_inv_def)
  from x obtain ys zs where xs: "xs = ys @ ?x # zs"
    by (auto dest: split_list)
  from d(2) xs have rm: "remove1 ?x xs = ys @ zs"
    by (simp add: remove1_append)
  from dll_dom[OF d(1)] have z: "0 \<notin> set xs" by simp
  from dll_mid[OF d(1)[unfolded xs]] obtain b where
    b: "?h ?x = Some b" "prev b = last (0 # ys)" "next b = hd0 zs" by blast
  have pr: "prev b = 0 \<or> (prev b \<in> dom ?h \<and> prev b \<noteq> ?x)"
  proof (cases "ys = []")
    case True then show ?thesis using b by simp
  next
    case False
    then have l: "last ys \<in> set ys" by simp
    then have "last ys \<in> dom ?h" "last ys \<noteq> ?x" using d(2,3) xs by auto
    then show ?thesis using b False by simp
  qed
  have nx: "next b = 0 \<or> next b \<in> dom ?h"
    using b d(3) xs by (cases zs) (auto simp: hd0_def)
  from vlddelete_unlinked[OF b(1) p pr nx] obtain s' where
    s': "vlddelete hsz p s = Inr s'" "g_vldHeap s' = unlinked ?h ?x"
      "g_vldBlockList s' = (if prev b = 0 then next b else g_vldBlockList s)"
      "serialnumber s' = serialnumber s"
      "oscalls s' = oscalls s @ [(FreeCall ?x, True)]" "heap_mutex s' = False"
    by blast
  have pz: "prev b = 0 \<longleftrightarrow> ys = []"
    using b z xs by (cases "ys = []") (auto dest: last_in_set)
  have hd: "g_vldBlockList s' = (if ys = [] then hd0 zs else g_vldBlockList s)"
    using s'(3) pz b by simp
  from dll_unlink[OF d(1)[unfolded xs] d(2)[unfolded xs]] z xs
  have "dll (unlinked ?h ?x) 0 (if ys = [] then hd0 zs else g_vldBlockList s) (ys @ zs)"
    by simp
  then have "dll (g_vldHeap s') 0 (g_vldBlockList s') (ys @ zs)"
    using s'(2) hd by simp
  moreover have "distinct (ys @ zs)" using d(2) xs by simp
  moreover have "set (ys @ zs) = dom (g_vldHeap s')"
  proof -
    have "dom (unlinked ?h ?x) = dom ?h - {?x}"
      using pr nx by (intro dom_unlinked[where b = b] b(1)) auto
    moreover have "set (ys @ zs) = set xs - {?x}"
      using d(2) xs by auto
    ultimately show ?thesis using d(3) s'(2) by simp
  qed
  ultimately have "registry_inv s' (remove1 ?x xs)"
    by (simp add: registry_inv_def rm)
  with s' show ?thesis by blast
qed

lemma vldnew_inv:
  assumes inv: "registry_inv s xs" and r: "r \<noteq> 0" "r \<notin> set xs"
    and pre: "0 < sz" "f \<noteq> 0" "0 < sint l"
  shows "\<exists>s' b. vldnew hsz r sz f l s = Inr (VLDBLOCKDATA hsz r, s') \<and> registry_inv s' (r # xs) \<and>
           g_vldHeap s' r = Some b \<and> serialNumber b = serialnumber s \<and>
           size_bytes b = sz \<and> file b = f \<and> line b = l \<and>
           serialnumber s' = serialnumber s + 1 \<and> heap_mutex s' = False \<and>
           oscalls s' = oscalls s @ [(AllocCall (sz + hsz), heap_mutex s)]"
proof -
  let ?h = "g_vldHeap s"
  from inv have d: "dll ?h 0 (g_vldBlockList s) xs" "distinct xs" "set xs = dom ?h"
    by (auto simp: registry_inv_def)
  show ?thesis
  proof (cases xs)
    case Nil
    with d have "g_vldBlockList s = 0" "?h = Map.empty" by auto
    with r pre Nil show ?thesis
      by (auto simp: vldnew_def Let_def set_next_def set_prev_def registry_inv_def)
  next
    case (Cons x xs')
    with d obtain bx where bx: "g_vldBlockList s = x" "x \<noteq> 0" "?h x = Some bx" "prev bx = 0"
      "dll ?h x (next bx) xs'"
      by (auto split: option.splits)
    from r Cons d have ne: "r \<noteq> x" "r \<notin> set xs'" "x \<notin> set xs'" by auto
    define nb where "nb = \<lparr>next = x, prev = 0, file = f, line = l, size_bytes = sz,
                          serialNumber = serialnumber s\<rparr>"
    define h' where "h' = ?h(r \<mapsto> nb, x \<mapsto> bx\<lparr>prev := r\<rparr>)"
    have res: "vldnew hsz r sz f l s = Inr (VLDBLOCKDATA hsz r,
        s\<lparr>oscalls := oscalls s @ [(AllocCall (sz + hsz), heap_mutex s)],
          g_vldHeap := h', serialnumber := serialnumber s + 1,
          heap_mutex := False, g_vldBlockList := r\<rparr>)"
      using r pre bx ne
      by (auto simp: vldnew_def Let_def set_next_def set_prev_def h'_def nb_def fun_upd_twist)
    have "dll h' x (next bx) xs'"
      using bx(5) ne by (simp add: h'_def dll_frame del: fun_upd_apply)
    then have "dll h' 0 r (r # xs)"
      using r ne bx Cons by (simp add: h'_def nb_def)
    moreover have "dom h' = set (r # xs)"
      using d(3) Cons bx by (auto simp: h'_def)
    ultimately have "registry_inv (s\<lparr>oscalls := oscalls s @ [(AllocCall (sz + hsz), heap_mutex s)],
          g_vldHeap := h', serialnumber := serialnumber s + 1,
          heap_mutex := False, g_vldBlockList := r\<rparr>) (r # xs)"
      using d(2) r by (simp add: registry_inv_def)
    moreover have "h' r = Some nb" using ne by (simp add: h'_def)
    ultimately show ?thesis using res
      by (auto simp: nb_def)
  qed
qed

lemma registry_inv_oscalls:
  "registry_inv (s\<lparr>oscalls := c\<rparr>) xs = registry_inv s xs"
  by (simp add: registry_inv_def)

lemma vldnew_fail:
  "0 < sz \<Longrightarrow> f \<noteq> 0 \<Longrightarrow> 0 < sint l \<Longrightarrow>
   vldnew hsz 0 sz f l s = Inr (0, s\<lparr>oscalls := oscalls s @ [(AllocCall (sz + hsz), heap_mutex s)]\<rparr>)"
  by (simp add: vldnew_def)

lemma run_inv:
  "registry_inv s xs \<Longrightarrow> wf_ops hsz xs ops \<Longrightarrow>
   \<exists>s'. run hsz ops s = Inr s' \<and> registry_inv s' (live_after hsz xs ops) \<and>
        serialnumber s' = serialnumber s + of_nat (successes ops) \<and>
        serials hsz ops s = map (\<lambda>k. serialnumber s + of_nat k) [0..<successes ops]"
proof (induction ops arbitrary: s xs)
  case Nil
  then show ?case by simp
next
  case (Cons a ops)
  show ?case
  proof (cases a)
    case (New r sz f l)
    with Cons.prems have pre: "0 < sz" "f \<noteq> 0" "0 < sint l" "r \<notin> set xs"
      and wf: "wf_ops hsz (if r = 0 then xs else r # xs) ops" by auto
    show ?thesis
    proof (cases "r = 0")
      case True
      let ?s1 = "s\<lparr>oscalls := oscalls s @ [(AllocCall (sz + hsz), heap_mutex s)]\<rparr>"
      have inv1: "registry_inv ?s1 xs" using Cons.prems(1) by (simp add: registry_inv_oscalls)
      from Cons.IH[OF inv1] wf True obtain s' where
        "run hsz ops ?s1 = Inr s'" "registry_inv s' (live_after hsz xs ops)"
        "serialnumber s' = serialnumber ?s1 + of_nat (successes ops)"
        "serials hsz ops ?s1 = map (\<lambda>k. serialnumber ?s1 + of_nat k) [0..<successes ops]"
        by auto
      then show ?thesis using New True pre by (simp add: vldnew_fail)
    next
      case False
      from vldnew_inv[OF Cons.prems(1) False pre(4) pre(1-3), of hsz] obtain s1 b where
        s1: "vldnew hsz r sz f l s = Inr (VLDBLOCKDATA hsz r, s1)" "registry_inv s1 (r # xs)"
          "g_vldHeap s1 r = Some b" "serialNumber b = serialnumber s"
          "serialnumber s1 = serialnumber s + 1"
        by blast
      from Cons.IH[OF s1(2)] wf False obtain s' where
        s': "run hsz ops s1 = Inr s'" "registry_inv s' (live_after hsz (r # xs) ops)"
        "serialnumber s' = serialnumber s1 + of_nat (successes ops)"
        "serials hsz ops s1 = map (\<lambda>k. serialnumber s1 + of_nat k) [0..<successes ops]"
        by auto
      have "map (\<lambda>k. serialnumber s + of_nat k) [0..<Suc (successes ops)]
            = serialnumber s # map (\<lambda>k. serialnumber s + 1 + of_nat k) [0..<successes ops]"
        by (simp add: upt_rec[of 0] map_Suc_upt[symmetric] add.assoc del: upt_Suc)
      then show ?thesis using New False s1 s'
        by (simp add: VLDBLOCKHEADER_def VLDBLOCKDATA_def add.assoc)
    qed
  next
    case (Delete p)
    show ?thesis
    proof (cases "p = 0")
      case True
      with Cons Delete show ?thesis by (auto simp: vlddelete_def)
    next
      case False
      with Cons.prems Delete have x: "VLDBLOCKHEADER hsz p \<in> set xs"
        and wf: "wf_ops hsz (remove1 (VLDBLOCKHEADER hsz p) xs) ops" by auto
      from vlddelete_inv[OF Cons.prems(1) x False] obtain s1 where
        s1: "vlddelete hsz p s = Inr s1" "registry_inv s1 (remove1 (VLDBLOCKHEADER hsz p) xs)"
          "serialnumber s1 = serialnumber s" by blast
      from Cons.IH[OF s1(2) wf] s1 Delete False show ?thesis by auto
    qed
  qed
qed

lemma cycle_start_init: "cycle_start vld_init"
  by (simp add: cycle_start_def vld_init_def)

lemma cycle_start_inv: "cycle_start s \<Longrightarrow> registry_inv s []"
  by (simp add: cycle_start_def registry_inv_def)

lemma count_list_distinct:
  "distinct xs \<Longrightarrow> count_list xs a = (if a \<in> set xs then 1 else 0)"
  by (induction xs) auto

lemma dll_neighbours:
  assumes d: "dll h 0 p xs" and a: "a \<in> set xs" and b: "h a = Some b"
  shows "(next b \<noteq> 0 \<longrightarrow> (\<exists>n. h (next b) = Some n \<and> prev n = a)) \<and>
         (prev b \<noteq> 0 \<longrightarrow> (\<exists>c. h (prev b) = Some c \<and> next c = a))"
proof -
  from a obtain ys zs where xs: "xs = ys @ a # zs" by (auto dest: split_list)
  from dll_mid[OF d[unfolded xs]] b have pn: "prev b = last (0 # ys)" "next b = hd0 zs"
    by auto
  have "\<exists>n. h (next b) = Some n \<and> prev n = a" if "next b \<noteq> 0"
  proof -
    from that pn obtain z zs' where zs: "zs = z # zs'" by (cases zs) (auto simp: hd0_def)
    from d have "dll h 0 p ((ys @ [a]) @ z # zs')" by (simp add: xs zs)
    from dll_mid[OF this] pn zs show ?thesis by (auto simp: hd0_def)
  qed
  moreover have "\<exists>c. h (prev b) = Some c \<and> next c = a" if "prev b \<noteq> 0"
  proof -
    from that pn have "ys \<noteq> []" by auto
    then obtain ys' y where ys: "ys = ys' @ [y]" by (metis rev_exhaust)
    from d have "dll h 0 p (ys' @ y # (a # zs))" by (simp add: xs ys)
    from dll_mid[OF this] pn ys show ?thesis by (auto simp: hd0_def)
  qed
  ultimately show ?thesis by blast
qed

lemma serials_init:
  "cycle_start s \<Longrightarrow> wf_ops hsz [] ops \<Longrightarrow>
   serials hsz ops s = map of_nat [0..<successes ops]"
  using run_inv[OF cycle_start_inv, of s hsz ops] by (auto simp: cycle_start_def)







lemma cycle_start_onLoad: "load_depth ls = 0 \<Longrightarrow> cycle_start (vldheap (onLoad ls))"
  by (simp add: onLoad_def cycle_start_def)

lemma stays_active_run:
  "stays_active (load_depth ls) es \<Longrightarrow>
   tracked (run_events es ls) = tracked ls + count_list es HostAlloc \<and>
   reports (run_events es ls) = reports ls \<and> 1 \<le> load_depth (run_events es ls)"
proof (induction es arbitrary: ls)
  case Nil
  then show ?case by simp
next
  case (Cons e es)
  show ?case
  proof (cases e)
    case Load
    with Cons.prems have "stays_active (load_depth (onLoad ls)) es"
      "tracked (onLoad ls) = tracked ls" "reports (onLoad ls) = reports ls"
      by (auto simp: onLoad_def)
    with Cons.IH[of "onLoad ls"] Load show ?thesis by simp
  next
    case Unload
    with Cons.prems have "stays_active (load_depth (onUnload ls)) es"
      "tracked (onUnload ls) = tracked ls" "reports (onUnload ls) = reports ls"
      by (auto simp: onUnload_def)
    with Cons.IH[of "onUnload ls"] Unload show ?thesis by simp
  next
    case HostAlloc
    with Cons.prems have "stays_active (load_depth (trackAlloc ls)) es"
      "tracked (trackAlloc ls) = tracked ls + 1" "reports (trackAlloc ls) = reports ls"
      by (auto simp: trackAlloc_def)
    with Cons.IH[of "trackAlloc ls"] HostAlloc show ?thesis by simp
  qed
qed

text \<open>The modelled load-cycle state machine passes the repository's test.\<close>

lemma TestUnloadDlls2_passes: "TestUnloadDlls2 (lifecycle_init :: 32 lifecycle)"
  by (simp add: TestUnloadDlls2_def LoadLibrary_def FreeLibrary_def ExpectLeakCount_def
      onLoad_def onUnload_def trackAlloc_def lifecycle_init_def VLDGetLeaksCount_def
      GetModuleHandle_def GetProcAddress_def queryActiveLeakCount_def)

lemma vldnew_oscalls:
  "vldnew hsz r sz f l s = Inr (p, s') \<Longrightarrow>
   oscalls s' = oscalls s @ [(AllocCall (sz + hsz), heap_mutex s)] \<and>
   (r \<noteq> 0 \<longrightarrow> \<not> heap_mutex s') \<and> (r = 0 \<longrightarrow> heap_mutex s' = heap_mutex s)"
  unfolding vldnew_def Let_def
  by (simp split: if_splits sum.splits option.splits) auto

lemma vlddelete_oscalls:
  "vlddelete hsz block s = Inr s' \<Longrightarrow> block \<noteq> 0 \<Longrightarrow>
   oscalls s' = oscalls s @ [(FreeCall (VLDBLOCKHEADER hsz block), True)] \<and> \<not> heap_mutex s'"
  unfolding vlddelete_def Let_def RtlFreeHeap_def
  by (simp split: if_splits sum.splits option.splits prod.splits) auto

subsection \<open>Concurrent calls: the invariant\<close>

lemma Inv_init: "Inv conc_init"
  by (simp add: Inv_def conc_init_def vld_init_def LK_def owned_def SH_def)

subsection \<open>Blocks held by threads\<close>

lemma owned_D:
  assumes "owned g D X"
  shows "\<And>u a. g u = Some a \<Longrightarrow> a \<in> D \<and> a \<notin> X"
    and "\<And>u v a. g u = Some a \<Longrightarrow> g v = Some a \<Longrightarrow> u = v"
    and "\<And>a. a \<in> D \<Longrightarrow> a \<notin> X \<Longrightarrow> \<exists>u. g u = Some a"
  using assms unfolding owned_def by blast+

lemma owned_I:
  assumes "\<And>u a. g u = Some a \<Longrightarrow> a \<in> D \<and> a \<notin> X"
    and "\<And>u v a. g u = Some a \<Longrightarrow> g v = Some a \<Longrightarrow> u = v"
    and "\<And>a. a \<in> D \<Longrightarrow> a \<notin> X \<Longrightarrow> \<exists>u. g u = Some a"
  shows "owned g D X"
  using assms unfolding owned_def by blast

lemma owned_add:
  assumes P: "owned g D X" and n: "g t = None" and r: "r \<notin> D" and s: "X \<subseteq> D"
  shows "owned (g(t := Some r)) (insert r D) X"
proof (rule owned_I)
  fix u a assume "(g(t := Some r)) u = Some a"
  then show "a \<in> insert r D \<and> a \<notin> X"
    using owned_D(1)[OF P] r s by (auto split: if_splits)
next
  fix u v a assume "(g(t := Some r)) u = Some a" "(g(t := Some r)) v = Some a"
  then show "u = v"
    using owned_D(1,2)[OF P] r by (auto split: if_splits)
next
  fix a assume a: "a \<in> insert r D" "a \<notin> X"
  show "\<exists>u. (g(t := Some r)) u = Some a"
  proof (cases "a = r")
    case True then show ?thesis by (intro exI[of _ t]) simp
  next
    case False
    with a owned_D(3)[OF P] obtain u where u: "g u = Some a" by auto
    with n have "u \<noteq> t" by auto
    with u show ?thesis by (intro exI[of _ u]) simp
  qed
qed

lemma owned_move_in:
  assumes P: "owned g D X" and n: "g t = Some r"
  shows "owned (g(t := None)) D (insert r X)"
proof (rule owned_I)
  fix u a assume "(g(t := None)) u = Some a"
  then have u: "u \<noteq> t" "g u = Some a" by (auto split: if_splits)
  have "a \<noteq> r" using owned_D(2)[OF P u(2)] n u(1) by auto
  with owned_D(1)[OF P u(2)] show "a \<in> D \<and> a \<notin> insert r X" by simp
next
  fix u v a assume "(g(t := None)) u = Some a" "(g(t := None)) v = Some a"
  then show "u = v"
    using owned_D(2)[OF P] by (auto split: if_splits)
next
  fix a assume a: "a \<in> D" "a \<notin> insert r X"
  with owned_D(3)[OF P] obtain u where u: "g u = Some a" by auto
  with n a have "u \<noteq> t" by auto
  with u show "\<exists>u. (g(t := None)) u = Some a" by (intro exI[of _ u]) simp
qed

lemma owned_move_out:
  assumes P: "owned g D X" and n: "g t = None" and r: "r \<in> X" and s: "X \<subseteq> D"
  shows "owned (g(t := Some r)) D (X - {r})"
proof (rule owned_I)
  fix u a assume "(g(t := Some r)) u = Some a"
  then show "a \<in> D \<and> a \<notin> X - {r}"
    using owned_D(1)[OF P] r s by (auto split: if_splits)
next
  fix u v a assume "(g(t := Some r)) u = Some a" "(g(t := Some r)) v = Some a"
  then show "u = v"
    using owned_D(1,2)[OF P] r by (auto split: if_splits)
next
  fix a assume a: "a \<in> D" "a \<notin> X - {r}"
  show "\<exists>u. (g(t := Some r)) u = Some a"
  proof (cases "a = r")
    case True then show ?thesis by (intro exI[of _ t]) simp
  next
    case False
    with a owned_D(3)[OF P] obtain u where u: "g u = Some a" by auto
    with n have "u \<noteq> t" by auto
    with u show ?thesis by (intro exI[of _ u]) simp
  qed
qed

lemma owned_remove:
  assumes P: "owned g D X" and n: "g t = Some r"
  shows "owned (g(t := None)) (D - {r}) X"
proof (rule owned_I)
  fix u a assume "(g(t := None)) u = Some a"
  then have u: "u \<noteq> t" "g u = Some a" by (auto split: if_splits)
  have "a \<noteq> r" using owned_D(2)[OF P u(2)] n u(1) by auto
  with owned_D(1)[OF P u(2)] show "a \<in> D - {r} \<and> a \<notin> X" by simp
next
  fix u v a assume "(g(t := None)) u = Some a" "(g(t := None)) v = Some a"
  then show "u = v"
    using owned_D(2)[OF P] by (auto split: if_splits)
next
  fix a assume a: "a \<in> D - {r}" "a \<notin> X"
  with owned_D(3)[OF P] obtain u where u: "g u = Some a" by auto
  with n a have "u \<noteq> t" by auto
  with u show "\<exists>u. (g(t := None)) u = Some a" by (intro exI[of _ u]) simp
qed

lemma owned_keep: "owned g D X \<Longrightarrow> q = g t \<Longrightarrow> owned (g(t := q)) D X"
  by simp

lemma LK_keep: "LK T ow \<Longrightarrow> in_cs p' = in_cs (T t) \<Longrightarrow> LK (T(t := p')) ow"
  unfolding LK_def by auto

lemma LK_acquire: "LK T None \<Longrightarrow> in_cs p' \<Longrightarrow> LK (T(t := p')) (Some t)"
  unfolding LK_def by auto

lemma LK_release: "LK T (Some t) \<Longrightarrow> \<not> in_cs p' \<Longrightarrow> LK (T(t := p')) None"
  unfolding LK_def by auto

lemma LK_owner: "LK T ow \<Longrightarrow> (ow = Some t) = in_cs (T t)"
  unfolding LK_def by auto

subsection \<open>The shape of the list while a thread is in the critical section\<close>

lemma shape_frame:
  "shape pc h p xs \<Longrightarrow> r \<notin> set xs \<Longrightarrow> priv pc \<noteq> Some r \<Longrightarrow> shape pc (h(r := v)) p xs"
proof (induction pc h p xs rule: shape.induct)
  case (7 d h p xs)
  then obtain b where b: "h d = Some b" "next b = 0 \<or> next b \<in> set xs"
    "dll (if next b = 0 then h else h(next b \<mapsto> (the (h (next b)))\<lparr>prev := prev b\<rparr>)) 0 p xs"
    by (auto split: option.splits)
  from 7 have rd: "r \<noteq> d" by auto
  from b(2) 7(2) have rn: "next b = 0 \<or> r \<noteq> next b" by auto
  have "dll (if next b = 0 then h(r := v)
             else (h(r := v))(next b \<mapsto> (the ((h(r := v)) (next b)))\<lparr>prev := prev b\<rparr>)) 0 p xs"
  proof (cases "next b = 0")
    case True
    with b(3) 7(2) show ?thesis by (simp add: dll_frame)
  next
    case False
    with rn have ne: "r \<noteq> next b" by simp
    then have "(h(r := v))(next b \<mapsto> (the ((h(r := v)) (next b)))\<lparr>prev := prev b\<rparr>)
          = (h(next b \<mapsto> (the (h (next b)))\<lparr>prev := prev b\<rparr>))(r := v)"
      by (simp add: fun_upd_twist)
    with b(3) False 7(2) show ?thesis by (simp add: dll_frame del: fun_upd_apply)
  qed
  moreover have "(h(r := v)) d = Some b" using rd b(1) by simp
  moreover note b(2)
  ultimately show ?case by (simp del: fun_upd_apply)
qed (auto simp: dll_frame split: option.splits)

lemma SH_other:
  assumes "SH ow T h p xs" "ow \<noteq> Some t" "r \<notin> set xs"
    and "\<And>u. u \<noteq> t \<Longrightarrow> priv (T u) \<noteq> Some r"
  shows "SH ow (T(t := p')) (h(r := v)) p xs"
  using assms by (cases ow) (auto simp: SH_def dll_frame intro: shape_frame)

lemma SH_other_same:
  assumes "SH ow T h p xs" "ow \<noteq> Some t"
  shows "SH ow (T(t := p')) h p xs"
  using assms by (cases ow) (auto simp: SH_def)

lemma InvD:
  assumes "Inv c"
  shows "heap_mutex (mem c) = (owner c \<noteq> None)"
    and "LK (threads c) (owner c)"
    and "distinct (linked c)"
    and "distinct (returned c)"
    and "0 \<notin> dom (g_vldHeap (mem c))"
    and "set (linked c) \<subseteq> dom (g_vldHeap (mem c))"
    and "set (returned c) \<subseteq> set (linked c)"
    and "owned (priv \<circ> threads c) (dom (g_vldHeap (mem c))) (set (linked c))"
    and "owned (own \<circ> threads c) (set (linked c)) (set (returned c))"
    and "SH (owner c) (threads c) (g_vldHeap (mem c)) (g_vldBlockList (mem c)) (linked c)"
    and "\<And>u r f. threads c u = D_ret r f \<Longrightarrow> f"
    and "\<And>e. e \<in> set (trace c) \<Longrightarrow> trace_ok e"
  using assms unfolding Inv_def by blast+

lemma InvI:
  assumes "heap_mutex (mem c) = (owner c \<noteq> None)"
    and "LK (threads c) (owner c)"
    and "distinct (linked c)"
    and "distinct (returned c)"
    and "0 \<notin> dom (g_vldHeap (mem c))"
    and "set (linked c) \<subseteq> dom (g_vldHeap (mem c))"
    and "set (returned c) \<subseteq> set (linked c)"
    and "owned (priv \<circ> threads c) (dom (g_vldHeap (mem c))) (set (linked c))"
    and "owned (own \<circ> threads c) (set (linked c)) (set (returned c))"
    and "SH (owner c) (threads c) (g_vldHeap (mem c)) (g_vldBlockList (mem c)) (linked c)"
    and "\<And>u r f. threads c u = D_ret r f \<Longrightarrow> f"
    and "\<And>e. e \<in> set (trace c) \<Longrightarrow> trace_ok e"
  shows "Inv c"
  using assms unfolding Inv_def by blast

lemmas cfg_defs = goto_def logged_def set_heap_def release_def acquire_def

lemma comp_upd_same: "f p' = f (T t) \<Longrightarrow> f \<circ> (T(t := p')) = f \<circ> T"
  by (auto simp: fun_eq_iff)

lemma comp_upd: "f \<circ> (T(t := p')) = (f \<circ> T)(t := f p')"
  by (auto simp: fun_eq_iff)

lemma Inv_priv:
  assumes I: "Inv c" and r: "priv (threads c t) = Some r"
  shows "r \<in> dom (g_vldHeap (mem c))" and "r \<notin> set (linked c)" and "r \<noteq> 0"
    and "\<And>u. priv (threads c u) = Some r \<Longrightarrow> u = t"
proof -
  note D = InvD[OF I]
  from r have r': "(priv \<circ> threads c) t = Some r" by simp
  from owned_D(1)[OF D(8) r'] show 1: "r \<in> dom (g_vldHeap (mem c))"
    and "r \<notin> set (linked c)" by blast+
  from 1 D(5) show "r \<noteq> 0" by blast
  fix u assume "priv (threads c u) = Some r"
  then have "(priv \<circ> threads c) u = Some r" by simp
  from owned_D(2)[OF D(8) this r'] show "u = t" .
qed

lemma Inv_own:
  assumes I: "Inv c" and r: "own (threads c t) = Some r"
  shows "r \<in> set (linked c)" and "r \<notin> set (returned c)"
    and "r \<in> dom (g_vldHeap (mem c))" and "r \<noteq> 0"
    and "\<And>u. own (threads c u) = Some r \<Longrightarrow> u = t"
proof -
  note D = InvD[OF I]
  from r have r': "(own \<circ> threads c) t = Some r" by simp
  from owned_D(1)[OF D(9) r'] show 1: "r \<in> set (linked c)"
    and "r \<notin> set (returned c)" by blast+
  from 1 D(6) show 2: "r \<in> dom (g_vldHeap (mem c))" by blast
  from 2 D(5) show "r \<noteq> 0" by blast
  fix u assume "own (threads c u) = Some r"
  then have "(own \<circ> threads c) u = Some r" by simp
  from owned_D(2)[OF D(9) this r'] show "u = t" .
qed

text \<open>A step of a thread outside the critical section that touches at most its own block.\<close>

lemma Inv_private_step:
  assumes I: "Inv c"
    and p': "priv p' = priv (threads c t)" "own p' = own (threads c t)"
      "\<not> in_cs p'" "\<not> in_cs (threads c t)"
    and h': "g_vldHeap (mem c') = g_vldHeap (mem c) \<or>
         (\<exists>r v. priv (threads c t) = Some r \<and> g_vldHeap (mem c') = (g_vldHeap (mem c))(r \<mapsto> v))"
    and c': "threads c' = (threads c)(t := p')" "owner c' = owner c" "linked c' = linked c"
      "returned c' = returned c" "g_vldBlockList (mem c') = g_vldBlockList (mem c)"
      "heap_mutex (mem c') = heap_mutex (mem c)"
    and tr: "\<And>e. e \<in> set (trace c') \<Longrightarrow> trace_ok e"
  shows "Inv c'"
proof -
  note D = InvD[OF I]
  have ow: "owner c \<noteq> Some t" using LK_owner[OF D(2), of t] p'(4) by simp
  have dm: "dom (g_vldHeap (mem c')) = dom (g_vldHeap (mem c))"
    using h'
  proof (elim disjE exE conjE)
    assume "g_vldHeap (mem c') = g_vldHeap (mem c)"
    then show ?thesis by simp
  next
    fix r v assume r: "priv (threads c t) = Some r"
      and e: "g_vldHeap (mem c') = (g_vldHeap (mem c))(r \<mapsto> v)"
    have "r \<in> dom (g_vldHeap (mem c))" by (rule Inv_priv(1)[OF I r])
    then show ?thesis by (simp add: e insert_absorb)
  qed
  have sh: "SH (owner c) ((threads c)(t := p')) (g_vldHeap (mem c')) (g_vldBlockList (mem c)) (linked c)"
    using h'
  proof (elim disjE exE conjE)
    assume "g_vldHeap (mem c') = g_vldHeap (mem c)"
    then show ?thesis using SH_other_same[OF D(10) ow] by simp
  next
    fix r v assume r: "priv (threads c t) = Some r"
      and e: "g_vldHeap (mem c') = (g_vldHeap (mem c))(r \<mapsto> v)"
    have 1: "r \<notin> set (linked c)" by (rule Inv_priv(2)[OF I r])
    have 2: "\<And>u. u \<noteq> t \<Longrightarrow> priv (threads c u) \<noteq> Some r"
      using Inv_priv(4)[OF I r] by blast
    show ?thesis unfolding e by (rule SH_other[OF D(10) ow 1 2])
  qed
  show ?thesis
  proof (rule InvI)
    show "LK (threads c') (owner c')" using LK_keep[OF D(2), of p' t] p' c' by simp
    show "owned (priv \<circ> threads c') (dom (g_vldHeap (mem c'))) (set (linked c'))"
      using D(8) p'(1) by (simp add: c' dm comp_upd_same)
    show "owned (own \<circ> threads c') (set (linked c')) (set (returned c'))"
      using D(9) p'(2) by (simp add: c' comp_upd_same)
    show "SH (owner c') (threads c') (g_vldHeap (mem c')) (g_vldBlockList (mem c')) (linked c')"
      using sh by (simp add: c')
    show "\<And>u r f. threads c' u = D_ret r f \<Longrightarrow> f"
      using D(11) p'(3) by (auto simp: c' split: if_splits)
  qed (use D dm c' tr in auto)
qed

subsection \<open>Every step keeps the invariant\<close>

lemma step_Idle:
  assumes I: "Inv c" and pc: "threads c t = Idle" and lg: "legal hsz inp c"
  shows "pc_step hsz t inp Idle c = Blocked \<or>
         (\<exists>c'. pc_step hsz t inp Idle c = Next c' \<and> Inv c')"
proof (cases inp)
  case (Call_new sz f l)
  have "Inv (goto t (N_alloc sz f l) c)"
    by (rule Inv_private_step[OF I, of _ t]) (use pc InvD(12)[OF I] in \<open>auto simp: cfg_defs\<close>)
  with Call_new lg show ?thesis by simp
next
  case (Call_delete block)
  show ?thesis
  proof (cases "block = 0")
    case True with Call_delete I show ?thesis by simp
  next
    case False
    let ?r = "VLDBLOCKHEADER hsz block"
    let ?c = "goto t (D_lock ?r) (c\<lparr>returned := remove1 ?r (returned c)\<rparr>)"
    note D = InvD[OF I]
    from lg Call_delete False have r: "?r \<in> set (returned c)" by simp
    have ow: "owner c \<noteq> Some t" using LK_owner[OF D(2), of t] pc by simp
    have "Inv ?c"
    proof (rule InvI)
      show "LK (threads ?c) (owner ?c)"
        using LK_keep[OF D(2), of "D_lock ?r" t] pc by (simp add: cfg_defs)
      show "owned (priv \<circ> threads ?c) (dom (g_vldHeap (mem ?c))) (set (linked ?c))"
        using D(8) pc by (simp add: cfg_defs comp_upd_same)
      show "owned (own \<circ> threads ?c) (set (linked ?c)) (set (returned ?c))"
        using owned_move_out[OF D(9), of t ?r] r D(4,7) pc
        by (simp add: cfg_defs comp_upd)
      show "SH (owner ?c) (threads ?c) (g_vldHeap (mem ?c)) (g_vldBlockList (mem ?c)) (linked ?c)"
        using SH_other_same[OF D(10) ow] by (simp add: cfg_defs)
      show "\<And>u r f. threads ?c u = D_ret r f \<Longrightarrow> f"
        using D(11) by (auto simp: cfg_defs split: if_splits)
      show "set (returned ?c) \<subseteq> set (linked ?c)"
        using D(7) set_remove1_subset[of ?r "returned c"] by (auto simp: cfg_defs)
    qed (use D in \<open>auto simp: cfg_defs\<close>)
    with Call_delete False show ?thesis by simp
  qed
qed simp_all

lemma step_N_alloc:
  assumes I: "Inv c" and pc: "threads c t = N_alloc sz f l" and lg: "legal hsz inp c"
  shows "pc_step hsz t inp (N_alloc sz f l) c = Blocked \<or>
         (\<exists>c'. pc_step hsz t inp (N_alloc sz f l) c = Next c' \<and> Inv c')"
proof (cases inp)
  case (OS_result r)
  note D = InvD[OF I]
  have ow: "owner c \<noteq> Some t" using LK_owner[OF D(2), of t] pc by simp
  let ?c1 = "logged t OsAlloc (c\<lparr>mem := (mem c)\<lparr>oscalls := oscalls (mem c)
                       @ [(AllocCall (sz + hsz), heap_mutex (mem c))]\<rparr>\<rparr>)"
  have tr: "\<And>e. e \<in> set (trace ?c1) \<Longrightarrow> trace_ok e"
    using D(12) ow by (auto simp: cfg_defs trace_ok_def)
  show ?thesis
  proof (cases "r = 0")
    case True
    have "Inv (goto t Idle ?c1)"
      by (rule Inv_private_step[OF I, of _ t]) (use pc tr in \<open>auto simp: cfg_defs\<close>)
    with OS_result True show ?thesis by (simp add: Let_def)
  next
    case False
    let ?b = "\<lparr>next = 0, prev = 0, file = 0, line = 0, size_bytes = 0, serialNumber = 0\<rparr>
                :: 'a vldblockheader_t"
    let ?c = "goto t (N_fill r sz f l) (set_heap ((g_vldHeap (mem ?c1))(r \<mapsto> ?b)) ?c1)"
    from lg OS_result False have fr: "r \<notin> dom (g_vldHeap (mem c))" by auto
    have rx: "r \<notin> set (linked c)" using fr D(6) by blast
    have oth: "\<And>u. u \<noteq> t \<Longrightarrow> priv (threads c u) \<noteq> Some r"
      using Inv_priv(1)[OF I] fr by blast
    have "Inv ?c"
    proof (rule InvI)
      show "LK (threads ?c) (owner ?c)"
        using LK_keep[OF D(2), of "N_fill r sz f l" t] pc by (simp add: cfg_defs)
      show "owned (priv \<circ> threads ?c) (dom (g_vldHeap (mem ?c))) (set (linked ?c))"
        using owned_add[OF D(8), of t r] fr D(6) pc by (simp add: cfg_defs comp_upd)
      show "owned (own \<circ> threads ?c) (set (linked ?c)) (set (returned ?c))"
        using D(9) pc by (simp add: cfg_defs comp_upd_same)
      show "SH (owner ?c) (threads ?c) (g_vldHeap (mem ?c)) (g_vldBlockList (mem ?c)) (linked ?c)"
        using SH_other[OF D(10) ow rx oth, of "N_fill r sz f l" "Some ?b"]
        by (simp add: cfg_defs)
      show "\<And>u r f. threads ?c u = D_ret r f \<Longrightarrow> f"
        using D(11) by (auto simp: cfg_defs split: if_splits)
      show "\<And>e. e \<in> set (trace ?c) \<Longrightarrow> trace_ok e"
        using tr by (simp add: cfg_defs)
      show "0 \<notin> dom (g_vldHeap (mem ?c))" using D(5) False by (auto simp: cfg_defs)
    qed (use D in \<open>auto simp: cfg_defs\<close>)
    with OS_result False show ?thesis by (simp add: Let_def)
  qed
qed simp_all

lemma step_N_fill:
  assumes I: "Inv c" and pc: "threads c t = N_fill r sz f l"
  shows "\<exists>c'. pc_step hsz t inp (N_fill r sz f l) c = Next c' \<and> Inv c'"
proof -
  from Inv_priv(1)[OF I, of t r] pc obtain b where b: "g_vldHeap (mem c) r = Some b" by auto
  let ?c = "goto t (N_load r sz)
              (set_heap ((g_vldHeap (mem c))(r \<mapsto> b\<lparr>file := f, line := l\<rparr>)) c)"
  have "Inv ?c"
    by (rule Inv_private_step[OF I, of _ t]) (use pc InvD(12)[OF I] in \<open>auto simp: cfg_defs\<close>)
  with b show ?thesis by simp
qed

lemma step_N_load:
  assumes I: "Inv c" and pc: "threads c t = N_load r sz"
  shows "\<exists>c'. pc_step hsz t inp (N_load r sz) c = Next c' \<and> Inv c'"
proof -
  let ?c = "goto t (N_store r sz (serialnumber (mem c))) (logged t Serial c)"
  have "Inv ?c"
    by (rule Inv_private_step[OF I, of _ t])
      (use pc InvD(12)[OF I] in \<open>auto simp: cfg_defs trace_ok_def\<close>)
  then show ?thesis by simp
qed

lemma step_N_store:
  assumes I: "Inv c" and pc: "threads c t = N_store r sz tmp"
  shows "\<exists>c'. pc_step hsz t inp (N_store r sz tmp) c = Next c' \<and> Inv c'"
proof -
  from Inv_priv(1)[OF I, of t r] pc obtain b where b: "g_vldHeap (mem c) r = Some b" by auto
  let ?c = "goto t (N_lock r)
            (logged t Serial
              (c\<lparr>mem := (mem c)\<lparr>serialnumber := tmp + 1,
                     g_vldHeap := (g_vldHeap (mem c))(r \<mapsto>
                        b\<lparr>serialNumber := tmp, size_bytes := sz\<rparr>)\<rparr>\<rparr>))"
  have "Inv ?c"
    by (rule Inv_private_step[OF I, of _ t])
      (use pc InvD(12)[OF I] in \<open>auto simp: cfg_defs trace_ok_def\<close>)
  with b show ?thesis by simp
qed

lemma step_acquire:
  assumes I: "Inv c" and pc: "threads c t = p"
    and p': "priv p' = priv p" "own p' = own p" "\<not> in_cs p" "in_cs p'"
      "\<And>r. p' \<noteq> D_ret r False"
    and sh: "\<And>h q xs. dll h 0 q xs \<Longrightarrow> shape p' h q xs"
  shows "acquire t p' c = Blocked \<or> (\<exists>c'. acquire t p' c = Next c' \<and> Inv c')"
proof (cases "owner c = None")
  case False then show ?thesis by (auto simp: acquire_def)
next
  case True
  note D = InvD[OF I]
  let ?c = "goto t p' (c\<lparr>owner := Some t, mem := (mem c)\<lparr>heap_mutex := True\<rparr>\<rparr>)"
  have "Inv ?c"
  proof (rule InvI)
    show "LK (threads ?c) (owner ?c)"
      using LK_acquire[of "threads c" p' t] D(2) True p' by (simp add: cfg_defs)
    show "owned (priv \<circ> threads ?c) (dom (g_vldHeap (mem ?c))) (set (linked ?c))"
      using D(8) pc p' by (simp add: cfg_defs comp_upd_same)
    show "owned (own \<circ> threads ?c) (set (linked ?c)) (set (returned ?c))"
      using D(9) pc p' by (simp add: cfg_defs comp_upd_same)
    show "SH (owner ?c) (threads ?c) (g_vldHeap (mem ?c)) (g_vldBlockList (mem ?c)) (linked ?c)"
      using D(10) True sh by (simp add: cfg_defs SH_def)
    show "\<And>u r f. threads ?c u = D_ret r f \<Longrightarrow> f"
    proof -
      fix u r f assume "threads ?c u = D_ret r f"
      then have "threads c u = D_ret r f \<or> p' = D_ret r f"
        by (auto simp: cfg_defs split: if_splits)
      then show f using D(11) p'(5) by (cases f) auto
    qed
  qed (use D in \<open>auto simp: cfg_defs\<close>)
  with True show ?thesis by (simp add: acquire_def)
qed

text \<open>A step inside the critical section that keeps the set of allocated and of linked blocks.\<close>

lemma Inv_cs_step:
  assumes I: "Inv c" and pc: "threads c t = p" and cs: "in_cs p" "in_cs p'"
    and p': "priv p' = priv p" "own p' = own p" "\<And>r. p' \<noteq> D_ret r False"
    and c': "threads c' = (threads c)(t := p')" "owner c' = owner c" "linked c' = linked c"
      "returned c' = returned c" "heap_mutex (mem c') = heap_mutex (mem c)"
      "dom (g_vldHeap (mem c')) = dom (g_vldHeap (mem c))"
    and sh: "shape p' (g_vldHeap (mem c')) (g_vldBlockList (mem c')) (linked c)"
    and tr: "\<And>e. e \<in> set (trace c') \<Longrightarrow> trace_ok e"
  shows "Inv c'"
proof -
  note D = InvD[OF I]
  have ow: "owner c = Some t" using LK_owner[OF D(2), of t] pc cs by simp
  show ?thesis
  proof (rule InvI)
    show "LK (threads c') (owner c')"
      using LK_keep[OF D(2), of p' t] pc cs by (simp add: c')
    show "owned (priv \<circ> threads c') (dom (g_vldHeap (mem c'))) (set (linked c'))"
      using D(8) pc p' by (simp add: c' comp_upd_same)
    show "owned (own \<circ> threads c') (set (linked c')) (set (returned c'))"
      using D(9) pc p' by (simp add: c' comp_upd_same)
    show "SH (owner c') (threads c') (g_vldHeap (mem c')) (g_vldBlockList (mem c')) (linked c')"
      using sh ow by (simp add: c' SH_def)
    show "\<And>u r f. threads c' u = D_ret r f \<Longrightarrow> f"
    proof -
      fix u r f assume "threads c' u = D_ret r f"
      then have "threads c u = D_ret r f \<or> p' = D_ret r f"
        by (auto simp: c' split: if_splits)
      then show f using D(11) p'(3) by (cases f) auto
    qed
  qed (use D c' tr in auto)
qed

lemma Inv_owner:
  assumes I: "Inv c" and pc: "threads c t = p" and cs: "in_cs p"
  shows "owner c = Some t"
    and "shape p (g_vldHeap (mem c)) (g_vldBlockList (mem c)) (linked c)"
proof -
  note D = InvD[OF I]
  show ow: "owner c = Some t" using LK_owner[OF D(2), of t] pc cs by simp
  from D(10) ow pc show "shape p (g_vldHeap (mem c)) (g_vldBlockList (mem c)) (linked c)"
    by (simp add: SH_def)
qed

lemma trace_reg:
  assumes I: "Inv c" and pc: "threads c t = p" and cs: "in_cs p"
  shows "e \<in> set (trace (logged t Registry c)) \<Longrightarrow> trace_ok e"
  using InvD(12)[OF I] Inv_owner(1)[OF I pc cs] by (auto simp: logged_def trace_ok_def)

lemma step_N_next:
  assumes I: "Inv c" and pc: "threads c t = N_next r"
  shows "\<exists>c'. pc_step hsz t inp (N_next r) c = Next c' \<and> Inv c'"
proof -
  from Inv_priv[OF I, of t r] pc have r: "r \<in> dom (g_vldHeap (mem c))" "r \<notin> set (linked c)"
    by simp_all
  then obtain b where b: "g_vldHeap (mem c) r = Some b" by auto
  let ?h = "(g_vldHeap (mem c))(r \<mapsto> b\<lparr>next := g_vldBlockList (mem c)\<rparr>)"
  let ?c = "goto t (N_nextprev r) (set_heap ?h (logged t Registry c))"
  from Inv_owner(2)[OF I pc] have "dll (g_vldHeap (mem c)) 0 (g_vldBlockList (mem c)) (linked c)"
    by simp
  then have sh: "shape (N_nextprev r) ?h (g_vldBlockList (mem c)) (linked c)"
    using r(2) by (simp add: dll_frame del: fun_upd_apply) simp
  have "Inv ?c"
    by (rule Inv_cs_step[OF I pc, of "N_nextprev r"])
      (use sh r trace_reg[OF I pc] in \<open>auto simp: cfg_defs\<close>)
  with b show ?thesis by (simp add: set_next_def)
qed

lemma step_N_nextprev:
  assumes I: "Inv c" and pc: "threads c t = N_nextprev r"
  shows "\<exists>c'. pc_step hsz t inp (N_nextprev r) c = Next c' \<and> Inv c'"
proof -
  let ?h = "g_vldHeap (mem c)" and ?p = "g_vldBlockList (mem c)" and ?xs = "linked c"
  from Inv_priv[OF I, of t r] pc have r: "r \<in> dom ?h" "r \<notin> set ?xs" by simp_all
  from Inv_owner(2)[OF I pc] obtain b where b: "?h r = Some b" "next b = ?p"
    and d: "dll ?h 0 ?p ?xs" by (auto split: option.splits)
  show ?thesis
  proof (cases "?p = 0")
    case True
    with d have xs: "?xs = []" by (cases ?xs) auto
    let ?c = "goto t (N_prev r) (set_heap ?h (logged t Registry c))"
    have sh: "shape (N_prev r) ?h ?p ?xs" using b True xs by simp
    have "Inv ?c"
      by (rule Inv_cs_step[OF I pc, of "N_prev r"])
        (use sh trace_reg[OF I pc] in \<open>auto simp: cfg_defs\<close>)
    with b True show ?thesis by simp
  next
    case False
    with d obtain x xs' bx where x: "?xs = x # xs'" "?p = x" "x \<noteq> 0" "?h x = Some bx"
      "prev bx = 0" "dll ?h x (next bx) xs'"
      by (cases ?xs) (auto split: option.splits)
    from InvD(3)[OF I] x(1) have nx: "x \<notin> set xs'" by simp
    from r x(1) have rx: "r \<noteq> x" by auto
    let ?h' = "?h(x \<mapsto> bx\<lparr>prev := r\<rparr>)"
    let ?c = "goto t (N_prev r) (set_heap ?h' (logged t Registry c))"
    have "dll ?h' x (next bx) xs'" using x(6) nx by (simp add: dll_frame del: fun_upd_apply)
    then have "dll ?h' r ?p ?xs" using x by simp
    then have sh: "shape (N_prev r) ?h' ?p ?xs" using b rx by simp
    have dm: "dom ?h' = dom ?h" using x(4) by auto
    have "Inv ?c"
      by (rule Inv_cs_step[OF I pc, of "N_prev r"])
        (use sh dm trace_reg[OF I pc] in \<open>auto simp: cfg_defs simp del: fun_upd_apply\<close>)
    with b x False show ?thesis by (simp add: set_prev_def)
  qed
qed

lemma step_N_prev:
  assumes I: "Inv c" and pc: "threads c t = N_prev r"
  shows "\<exists>c'. pc_step hsz t inp (N_prev r) c = Next c' \<and> Inv c'"
proof -
  let ?h = "g_vldHeap (mem c)" and ?p = "g_vldBlockList (mem c)" and ?xs = "linked c"
  from Inv_priv[OF I, of t r] pc have r: "r \<in> dom ?h" "r \<notin> set ?xs" by simp_all
  from Inv_owner(2)[OF I pc] obtain b where b: "?h r = Some b" "next b = ?p"
    and d: "dll ?h r ?p ?xs" by (auto split: option.splits)
  let ?h' = "?h(r \<mapsto> b\<lparr>prev := 0\<rparr>)"
  let ?c = "goto t (N_head r) (set_heap ?h' (logged t Registry c))"
  have "dll ?h' r ?p ?xs" using d r(2) by (simp add: dll_frame del: fun_upd_apply)
  then have sh: "shape (N_head r) ?h' ?p ?xs" using b by simp
  have dm: "dom ?h' = dom ?h" using b by auto
  have "Inv ?c"
    by (rule Inv_cs_step[OF I pc, of "N_head r"])
      (use sh dm trace_reg[OF I pc] in \<open>auto simp: cfg_defs simp del: fun_upd_apply\<close>)
  with b show ?thesis by (simp add: set_prev_def)
qed

lemma step_N_head:
  assumes I: "Inv c" and pc: "threads c t = N_head r"
  shows "\<exists>c'. pc_step hsz t inp (N_head r) c = Next c' \<and> Inv c'"
proof -
  let ?h = "g_vldHeap (mem c)" and ?p = "g_vldBlockList (mem c)" and ?xs = "linked c"
  note D = InvD[OF I]
  from Inv_priv[OF I, of t r] pc have r: "r \<in> dom ?h" "r \<notin> set ?xs" "r \<noteq> 0" by simp_all
  from Inv_owner[OF I pc] obtain b where ow: "owner c = Some t"
    and b: "?h r = Some b" "next b = ?p" "prev b = 0" and d: "dll ?h r ?p ?xs"
    by (auto split: option.splits)
  let ?c = "goto t (N_ret r)
       ((logged t Registry c)\<lparr>mem := (mem c)\<lparr>g_vldBlockList := r\<rparr>, linked := r # linked c\<rparr>)"
  have "Inv ?c"
  proof (rule InvI)
    show "LK (threads ?c) (owner ?c)"
      using LK_keep[OF D(2), of "N_ret r" t] pc by (simp add: cfg_defs)
    show "owned (priv \<circ> threads ?c) (dom (g_vldHeap (mem ?c))) (set (linked ?c))"
      using owned_move_in[OF D(8), of t r] pc by (simp add: cfg_defs comp_upd)
    show "owned (own \<circ> threads ?c) (set (linked ?c)) (set (returned ?c))"
      using owned_add[OF D(9), of t r] pc r(2) D(7) by (simp add: cfg_defs comp_upd)
    show "SH (owner ?c) (threads ?c) (g_vldHeap (mem ?c)) (g_vldBlockList (mem ?c)) (linked ?c)"
      using ow b d r(3) by (simp add: cfg_defs SH_def)
    show "\<And>u r f. threads ?c u = D_ret r f \<Longrightarrow> f"
      using D(11) by (auto simp: cfg_defs split: if_splits)
    show "\<And>e. e \<in> set (trace ?c) \<Longrightarrow> trace_ok e"
      using trace_reg[OF I pc] by (simp add: cfg_defs)
    show "set (returned ?c) \<subseteq> set (linked ?c)" using D(7) by (auto simp: cfg_defs)
  qed (use D r in \<open>auto simp: cfg_defs\<close>)
  then show ?thesis by simp
qed

lemma step_N_ret:
  assumes I: "Inv c" and pc: "threads c t = N_ret r"
  shows "\<exists>c'. pc_step hsz t inp (N_ret r) c = Next c' \<and> Inv c'"
proof -
  note D = InvD[OF I]
  from Inv_own[OF I, of t r] pc have r: "r \<in> set (linked c)" "r \<notin> set (returned c)"
    by simp_all
  from Inv_owner[OF I pc] have ow: "owner c = Some t"
    and d: "dll (g_vldHeap (mem c)) 0 (g_vldBlockList (mem c)) (linked c)" by simp_all
  let ?c = "goto t Idle ((release c)\<lparr>returned := r # returned c\<rparr>)"
  have "Inv ?c"
  proof (rule InvI)
    show "LK (threads ?c) (owner ?c)"
      using LK_release[of "threads c" t Idle] D(2) ow by (simp add: cfg_defs)
    show "owned (priv \<circ> threads ?c) (dom (g_vldHeap (mem ?c))) (set (linked ?c))"
      using D(8) pc by (simp add: cfg_defs comp_upd_same)
    show "owned (own \<circ> threads ?c) (set (linked ?c)) (set (returned ?c))"
      using owned_move_in[OF D(9), of t r] pc by (simp add: cfg_defs comp_upd)
    show "SH (owner ?c) (threads ?c) (g_vldHeap (mem ?c)) (g_vldBlockList (mem ?c)) (linked ?c)"
      using d by (simp add: cfg_defs SH_def)
    show "\<And>u r f. threads ?c u = D_ret r f \<Longrightarrow> f"
      using D(11) by (auto simp: cfg_defs split: if_splits)
  qed (use D r in \<open>auto simp: cfg_defs\<close>)
  then show ?thesis by simp
qed

lemma dll_unlink_pending:
  assumes d: "dll h 0 p (ys @ x # zs)" and ds: "distinct (ys @ x # zs)" and b: "h x = Some b"
  defines "h1 \<equiv> (if prev b = 0 then h else h(prev b \<mapsto> (the (h (prev b)))\<lparr>next := next b\<rparr>))"
  shows "dll (if next b = 0 then h1 else h1(next b \<mapsto> (the (h1 (next b)))\<lparr>prev := prev b\<rparr>))
           0 (if ys = [] then hd0 zs else p) (ys @ zs)"
proof -
  let ?h2 = "if next b = 0 then h1 else h1(next b \<mapsto> (the (h1 (next b)))\<lparr>prev := prev b\<rparr>)"
  from dll_dom[OF d] have "0 \<notin> set (ys @ x # zs)" by simp
  from dll_unlink[OF d ds this]
  have "dll (unlinked h x) 0 (if ys = [] then hd0 zs else p) (ys @ zs)" .
  moreover have "unlinked h x = ?h2(x := None)"
    using b by (simp add: unlinked_def Let_def h1_def)
  moreover have "x \<notin> set (ys @ zs)" using ds by auto
  ultimately have "dll (?h2(x := None)) 0 (if ys = [] then hd0 zs else p) (ys @ zs)"
    by (simp only:)
  then show ?thesis using dll_frame[of x "ys @ zs" ?h2 None] \<open>x \<notin> set (ys @ zs)\<close>
    by blast
qed

lemma step_D_prev:
  assumes I: "Inv c" and pc: "threads c t = D_prev r"
  shows "\<exists>c'. pc_step hsz t inp (D_prev r) c = Next c' \<and> Inv c'"
proof -
  let ?h = "g_vldHeap (mem c)" and ?p = "g_vldBlockList (mem c)" and ?xs = "linked c"
  note D = InvD[OF I]
  from Inv_own[OF I, of t r] pc have r: "r \<in> set ?xs" "r \<notin> set (returned c)" by simp_all
  from Inv_owner[OF I pc] have ow: "owner c = Some t" and d: "dll ?h 0 ?p ?xs" by simp_all
  from r(1) obtain ys zs where xs: "?xs = ys @ r # zs" by (auto dest: split_list)
  from D(3) xs have ds: "distinct (ys @ r # zs)" by simp
  then have rm: "remove1 r ?xs = ys @ zs" by (simp add: xs remove1_append)
  from dll_mid[OF d[unfolded xs]] obtain b where
    b: "?h r = Some b" "prev b = last (0 # ys)" "next b = hd0 zs" by blast
  have z: "0 \<notin> set ?xs" using D(5,6) by blast
  have pz: "prev b = 0 \<longleftrightarrow> ys = []"
    using b z xs by (cases "ys = []") (auto dest: last_in_set)
  have nx: "next b = 0 \<or> next b \<in> set (ys @ zs)"
    using b(3) by (cases zs) (auto simp: hd0_def)
  define h1 where "h1 = (if prev b = 0 then ?h else ?h(prev b \<mapsto> (the (?h (prev b)))\<lparr>next := next b\<rparr>))"
  define p1 where "p1 = (if prev b = 0 then next b else ?p)"
  have pd: "prev b = 0 \<or> (prev b \<in> dom ?h \<and> prev b \<noteq> r)"
  proof (cases "ys = []")
    case True then show ?thesis using pz by simp
  next
    case False
    then have "last ys \<in> set ys" by simp
    then have "last ys \<in> dom ?h" "last ys \<noteq> r" using ds D(6) xs by auto
    then show ?thesis using b False by simp
  qed
  have dm: "dom h1 = dom ?h" using pd by (auto simp: h1_def)
  have h1r: "h1 r = Some b" using pd b(1) by (auto simp: h1_def)
  have pend: "dll (if next b = 0 then h1 else h1(next b \<mapsto> (the (h1 (next b)))\<lparr>prev := prev b\<rparr>))
           0 p1 (ys @ zs)"
  proof -
    note P = dll_unlink_pending[OF d[unfolded xs] ds b(1), folded h1_def]
    have "(if ys = [] then hd0 zs else ?p) = p1" using pz b(3) by (simp add: p1_def)
    with P show ?thesis by (simp only:)
  qed
  have sh: "shape (D_next r) h1 p1 (ys @ zs)"
    using h1r nx pend by simp
  let ?c = "goto t (D_next r)
       ((logged t Registry c)\<lparr>mem := (mem c)\<lparr>g_vldHeap := h1, g_vldBlockList := p1\<rparr>,
                              linked := remove1 r (linked c)\<rparr>)"
  have "Inv ?c"
  proof (rule InvI)
    show "LK (threads ?c) (owner ?c)"
      using LK_keep[OF D(2), of "D_next r" t] pc by (simp add: cfg_defs)
    show "owned (priv \<circ> threads ?c) (dom (g_vldHeap (mem ?c))) (set (linked ?c))"
      using owned_move_out[OF D(8), of t r] pc r(1) D(3,6) by (simp add: cfg_defs comp_upd dm)
    show "owned (own \<circ> threads ?c) (set (linked ?c)) (set (returned ?c))"
      using owned_remove[OF D(9), of t r] pc D(3) by (simp add: cfg_defs comp_upd)
    show "SH (owner ?c) (threads ?c) (g_vldHeap (mem ?c)) (g_vldBlockList (mem ?c)) (linked ?c)"
      using ow sh by (simp add: cfg_defs SH_def rm)
    show "\<And>u r f. threads ?c u = D_ret r f \<Longrightarrow> f"
      using D(11) by (auto simp: cfg_defs split: if_splits)
    show "\<And>e. e \<in> set (trace ?c) \<Longrightarrow> trace_ok e"
      using trace_reg[OF I pc] by (simp add: cfg_defs)
    show "set (returned ?c) \<subseteq> set (linked ?c)" using D(3,7) r(2) by (auto simp: cfg_defs)
    show "set (linked ?c) \<subseteq> dom (g_vldHeap (mem ?c))" using D(3,6) by (auto simp: cfg_defs dm)
    show "0 \<notin> dom (g_vldHeap (mem ?c))" using D(5) by (simp add: cfg_defs dm)
  qed (use D in \<open>auto simp: cfg_defs\<close>)
  moreover have "pc_step hsz t inp (D_prev r) c = Next ?c"
  proof (cases "prev b = 0")
    case True
    then show ?thesis using b(1) by (simp add: h1_def p1_def)
  next
    case False
    with pd obtain pb where "?h (prev b) = Some pb" by auto
    with False show ?thesis using b(1) by (simp add: h1_def p1_def set_next_def)
  qed
  ultimately show ?thesis by blast
qed

lemma step_D_next:
  assumes I: "Inv c" and pc: "threads c t = D_next r"
  shows "\<exists>c'. pc_step hsz t inp (D_next r) c = Next c' \<and> Inv c'"
proof -
  let ?h = "g_vldHeap (mem c)" and ?p = "g_vldBlockList (mem c)" and ?xs = "linked c"
  note D = InvD[OF I]
  from Inv_owner[OF I pc] obtain b where b: "?h r = Some b"
    and nx: "next b = 0 \<or> next b \<in> set ?xs"
    and d: "dll (if next b = 0 then ?h else ?h(next b \<mapsto> (the (?h (next b)))\<lparr>prev := prev b\<rparr>))
              0 ?p ?xs"
    by (auto split: option.splits)
  define h' where "h' = (if next b = 0 then ?h else ?h(next b \<mapsto> (the (?h (next b)))\<lparr>prev := prev b\<rparr>))"
  have nd: "next b = 0 \<or> next b \<in> dom ?h" using nx D(6) by blast
  have dm: "dom h' = dom ?h" using nd by (auto simp: h'_def)
  have sh: "shape (D_free r) h' ?p ?xs" using d by (simp add: h'_def)
  let ?c = "goto t (D_free r) (set_heap h' (logged t Registry c))"
  have "Inv ?c"
    by (rule Inv_cs_step[OF I pc, of "D_free r"])
      (use sh dm trace_reg[OF I pc] in \<open>auto simp: cfg_defs\<close>)
  moreover have "pc_step hsz t inp (D_next r) c = Next ?c"
  proof (cases "next b = 0")
    case True then show ?thesis using b by (simp add: h'_def)
  next
    case False
    with nd obtain nb where "?h (next b) = Some nb" by auto
    with False show ?thesis using b by (simp add: h'_def set_prev_def)
  qed
  ultimately show ?thesis by blast
qed

lemma step_D_free:
  assumes I: "Inv c" and pc: "threads c t = D_free r"
  shows "\<exists>c'. pc_step hsz t inp (D_free r) c = Next c' \<and> Inv c'"
proof -
  let ?h = "g_vldHeap (mem c)" and ?p = "g_vldBlockList (mem c)" and ?xs = "linked c"
  note D = InvD[OF I]
  from Inv_priv[OF I, of t r] pc have r: "r \<in> dom ?h" "r \<notin> set ?xs" by simp_all
  from Inv_owner[OF I pc] have ow: "owner c = Some t" and d: "dll ?h 0 ?p ?xs" by simp_all
  let ?c = "goto t (D_ret r True)
            (logged t OsFree
               (c\<lparr>mem := (mem c)\<lparr>g_vldHeap := ?h(r := None),
                      oscalls := oscalls (mem c) @ [(FreeCall r, heap_mutex (mem c))]\<rparr>\<rparr>))"
  have "Inv ?c"
  proof (rule InvI)
    show "LK (threads ?c) (owner ?c)"
      using LK_keep[OF D(2), of "D_ret r True" t] pc by (simp add: cfg_defs)
    show "owned (priv \<circ> threads ?c) (dom (g_vldHeap (mem ?c))) (set (linked ?c))"
      using owned_remove[OF D(8), of t r] pc by (simp add: cfg_defs comp_upd)
    show "owned (own \<circ> threads ?c) (set (linked ?c)) (set (returned ?c))"
      using D(9) pc by (simp add: cfg_defs comp_upd_same)
    show "SH (owner ?c) (threads ?c) (g_vldHeap (mem ?c)) (g_vldBlockList (mem ?c)) (linked ?c)"
      using ow d r(2) by (simp add: cfg_defs SH_def dll_frame)
    show "\<And>u r f. threads ?c u = D_ret r f \<Longrightarrow> f"
      using D(11) by (auto simp: cfg_defs split: if_splits)
    show "\<And>e. e \<in> set (trace ?c) \<Longrightarrow> trace_ok e"
      using D(12) ow by (auto simp: cfg_defs trace_ok_def)
    show "set (linked ?c) \<subseteq> dom (g_vldHeap (mem ?c))" using D(6) r(2) by (auto simp: cfg_defs)
  qed (use D in \<open>auto simp: cfg_defs\<close>)
  moreover have "pc_step hsz t inp (D_free r) c = Next ?c"
    using r(1) by (auto simp: RtlFreeHeap_def)
  ultimately show ?thesis by blast
qed

lemma step_D_ret:
  assumes I: "Inv c" and pc: "threads c t = D_ret r f"
  shows "\<exists>c'. pc_step hsz t inp (D_ret r f) c = Next c' \<and> Inv c'"
proof -
  note D = InvD[OF I]
  from D(11)[OF pc] have f: f .
  from Inv_owner[OF I pc] have ow: "owner c = Some t"
    and d: "dll (g_vldHeap (mem c)) 0 (g_vldBlockList (mem c)) (linked c)" by simp_all
  let ?c = "goto t Idle (release c)"
  have "Inv ?c"
  proof (rule InvI)
    show "LK (threads ?c) (owner ?c)"
      using LK_release[of "threads c" t Idle] D(2) ow by (simp add: cfg_defs)
    show "owned (priv \<circ> threads ?c) (dom (g_vldHeap (mem ?c))) (set (linked ?c))"
      using D(8) pc by (simp add: cfg_defs comp_upd_same)
    show "owned (own \<circ> threads ?c) (set (linked ?c)) (set (returned ?c))"
      using D(9) pc by (simp add: cfg_defs comp_upd_same)
    show "SH (owner ?c) (threads ?c) (g_vldHeap (mem ?c)) (g_vldBlockList (mem ?c)) (linked ?c)"
      using d by (simp add: cfg_defs SH_def)
    show "\<And>u r f. threads ?c u = D_ret r f \<Longrightarrow> f"
      using D(11) by (auto simp: cfg_defs split: if_splits)
  qed (use D in \<open>auto simp: cfg_defs\<close>)
  with f show ?thesis by simp
qed

lemma thread_step_Inv:
  assumes I: "Inv c" and lg: "legal hsz inp c"
  shows "thread_step hsz t inp c = Blocked \<or>
         (\<exists>c'. thread_step hsz t inp c = Next c' \<and> Inv c')"
proof (cases "threads c t")
  case Idle with step_Idle[OF I _ lg] show ?thesis by (simp add: thread_step_def)
next
  case N_alloc with step_N_alloc[OF I _ lg] show ?thesis by (simp add: thread_step_def)
next
  case N_fill with step_N_fill[OF I] show ?thesis by (simp add: thread_step_def)
next
  case N_load with step_N_load[OF I] show ?thesis by (simp add: thread_step_def)
next
  case N_store with step_N_store[OF I] show ?thesis by (simp add: thread_step_def)
next
  case (N_lock r)
  with step_acquire[OF I this, of "N_next r"] show ?thesis by (simp add: thread_step_def)
next
  case N_next with step_N_next[OF I] show ?thesis by (simp add: thread_step_def)
next
  case N_nextprev with step_N_nextprev[OF I] show ?thesis by (simp add: thread_step_def)
next
  case N_prev with step_N_prev[OF I] show ?thesis by (simp add: thread_step_def)
next
  case N_head with step_N_head[OF I] show ?thesis by (simp add: thread_step_def)
next
  case N_ret with step_N_ret[OF I] show ?thesis by (simp add: thread_step_def)
next
  case (D_lock r)
  with step_acquire[OF I this, of "D_prev r"] show ?thesis by (simp add: thread_step_def)
next
  case D_prev with step_D_prev[OF I] show ?thesis by (simp add: thread_step_def)
next
  case D_next with step_D_next[OF I] show ?thesis by (simp add: thread_step_def)
next
  case D_free with step_D_free[OF I] show ?thesis by (simp add: thread_step_def)
next
  case D_ret with step_D_ret[OF I] show ?thesis by (simp add: thread_step_def)
qed

lemma crun_Inv:
  "Inv c \<Longrightarrow> wf_sched hsz sch c \<Longrightarrow> \<exists>c'. crun hsz sch c = Inr c' \<and> Inv c'"
proof (induction sch arbitrary: c)
  case Nil then show ?case by simp
next
  case (Cons a sch)
  obtain t inp where a: "a = (t, inp)" by (cases a)
  from Cons.prems a have lg: "legal hsz inp c" by simp
  from thread_step_Inv[OF Cons.prems(1) lg, of t] show ?case
  proof (elim disjE exE conjE)
    assume b: "thread_step hsz t inp c = Blocked"
    with Cons.prems a have "wf_sched hsz sch c" by simp
    from Cons.IH[OF Cons.prems(1) this] b a show ?thesis by simp
  next
    fix c' assume n: "thread_step hsz t inp c = Next c'" and I': "Inv c'"
    with Cons.prems a have "wf_sched hsz sch c'" by simp
    from Cons.IH[OF I' this] n a show ?thesis by simp
  qed
qed

subsection \<open>The length of the critical section\<close>

lemma cs_progress:
  assumes "pc_step hsz t inp p c = Next c'" and "in_cs p"
  shows "(cs_left p = 1 \<and> owner c' = None \<and> threads c' t = Idle) \<or>
         (cs_left (threads c' t) < cs_left p \<and> owner c' = owner c)"
proof (cases p)
  case (N_next r) with assms show ?thesis
    by (auto simp: cfg_defs split: sum.splits)
next
  case (N_nextprev r) with assms show ?thesis
    by (auto simp: cfg_defs split: option.splits sum.splits)
next
  case (N_prev r) with assms show ?thesis
    by (auto simp: cfg_defs split: sum.splits)
next
  case (N_head r) with assms show ?thesis by (auto simp: cfg_defs)
next
  case (N_ret r) with assms show ?thesis by (auto simp: cfg_defs)
next
  case (D_prev r) with assms show ?thesis
    by (auto simp: cfg_defs split: option.splits sum.splits)
next
  case (D_next r) with assms show ?thesis
    by (auto simp: cfg_defs split: option.splits sum.splits)
next
  case (D_free r) with assms show ?thesis
    by (auto simp: cfg_defs RtlFreeHeap_def)
next
  case (D_ret r f) with assms show ?thesis
    by (auto simp: cfg_defs split: if_splits)
qed (use assms in simp_all)

lemma cs_not_blocked: "in_cs p \<Longrightarrow> pc_step hsz t inp p c \<noteq> Blocked"
  by (cases p) (simp_all add: cfg_defs RtlFreeHeap_def split: option.splits sum.splits)

lemma idle_go: "threads c t = Idle \<Longrightarrow> crun hsz (replicate n (t, Go)) c = Inr c"
  by (induction n) (simp_all add: thread_step_def)

lemma in_cs_left: "in_cs p \<Longrightarrow> 0 < cs_left p"
  by (cases p) simp_all

lemma hold_bounded:
  "Inv c \<Longrightarrow> owner c = Some t \<Longrightarrow> cs_left (threads c t) \<le> n \<Longrightarrow>
   \<exists>c'. crun hsz (replicate n (t, Go)) c = Inr c' \<and> owner c' = None"
proof (induction n arbitrary: c)
  case 0
  from InvD(2)[OF 0(1)] 0(2) have "in_cs (threads c t)" by (simp add: LK_def)
  from in_cs_left[OF this] 0(3) show ?case by simp
next
  case (Suc n)
  from InvD(2)[OF Suc.prems(1)] Suc.prems(2) have cs: "in_cs (threads c t)"
    by (simp add: LK_def)
  have lg: "legal hsz Go c" by simp
  from thread_step_Inv[OF Suc.prems(1) lg, of t] cs_not_blocked[OF cs, of hsz t Go c]
  obtain c' where st: "thread_step hsz t Go c = Next c'" and I': "Inv c'"
    by (auto simp: thread_step_def)
  from cs_progress[OF st[unfolded thread_step_def] cs]
  show ?case
  proof (elim disjE conjE)
    assume "owner c' = None" "threads c' t = Idle"
    with idle_go[of c' t hsz n] st show ?thesis by simp
  next
    assume "cs_left (threads c' t) < cs_left (threads c t)" "owner c' = owner c"
    with Suc.prems have "owner c' = Some t" "cs_left (threads c' t) \<le> n" by simp_all
    from Suc.IH[OF I' this] st show ?thesis by simp
  qed
qed

lemma cs_left_le: "cs_left p \<le> 5"
  by (cases p) simp_all

lemma quiescent:
  assumes I: "Inv c" and q: "\<And>t. threads c t = Idle"
  shows "set (linked c) = set (returned c) \<and> dom (g_vldHeap (mem c)) = set (linked c)"
proof -
  note D = InvD[OF I]
  have "set (linked c) \<subseteq> set (returned c)"
    using owned_D(3)[OF D(9)] q by (auto simp: comp_def)
  moreover have "dom (g_vldHeap (mem c)) \<subseteq> set (linked c)"
    using owned_D(3)[OF D(8)] q by (auto simp: comp_def)
  ultimately show ?thesis using D(6,7) by blast
qed

lemmas step_defs = thread_step_def cfg_defs set_next_def set_prev_def RtlFreeHeap_def Let_def

subsection \<open>The sample schedules\<close>

lemma sample_sched_wf: "wf_sched 24 sample_sched conc_init"
  by (simp add: sample_sched_def conc_init_def vld_init_def step_defs VLDBLOCKHEADER_def)

lemma sample_sched_run:
  "(case crun 24 sample_sched conc_init of
      Inl e \<Rightarrow> False
    | Inr c \<Rightarrow> owner c = None \<and> (\<forall>t. threads c t = Idle) \<and> linked c = [0x2000] \<and>
        returned c = [0x2000])"
  by (simp add: sample_sched_def conc_init_def vld_init_def step_defs VLDBLOCKHEADER_def)

text \<open>
  The two calls of \<open>race_sched\<close> meet the callers' contract, and both blocks get the serial
  number 0: \<^verbatim>\<open>serialnumber++\<close> at line 179 runs before the mutex is taken at line 183.
\<close>

lemma race_sched_wf: "wf_sched 24 race_sched conc_init"
  by (simp add: race_sched_def conc_init_def vld_init_def step_defs)

lemma serial_race:
  "map_sum id (\<lambda>c. (map_option serialNumber (g_vldHeap (mem c) 0x1000),
                    map_option serialNumber (g_vldHeap (mem c) 0x2000),
                    serialnumber (mem c)))
     (crun 24 race_sched conc_init) = Inr (Some 0, Some 0, 1)"
  by (simp add: race_sched_def conc_init_def vld_init_def step_defs)

text \<open>
  A call that one thread runs without interruption, from a configuration in which the
  mutex is free, changes the memory as \<open>vldnew\<close> and \<open>vlddelete\<close> do.
\<close>

lemma vldnew_single_thread:
  assumes "owner c = None" and "threads c t = Idle"
  shows "map_sum id mem (crun hsz (new_sched t sz f l r) c)
           = map_sum id snd (vldnew hsz r sz f l (mem c))"
  using assms
  by (simp add: new_sched_def vldnew_def step_defs
        split: option.splits sum.splits)

lemma vlddelete_single_thread:
  assumes "owner c = None" and "threads c t = Idle"
  shows "map_sum id mem (crun hsz (delete_sched t block) c) = vlddelete hsz block (mem c)"
  using assms
  by (simp add: delete_sched_def vlddelete_def step_defs
        split: option.splits sum.splits)

lemma sample_prefix_wf: "wf_sched 24 (take 22 sample_sched) conc_init"
  by (simp add: sample_sched_def conc_init_def vld_init_def step_defs VLDBLOCKHEADER_def)

lemma sample_prefix_run:
  "(case crun 24 (take 22 sample_sched) conc_init of
      Inl e \<Rightarrow> False
    | Inr c \<Rightarrow> owner c = Some 1 \<and> threads c 1 = N_nextprev 0x2000 \<and>
        threads c 2 = D_lock 0x1000 \<and> linked c = [0x1000])"
  by (simp add: sample_sched_def conc_init_def vld_init_def step_defs VLDBLOCKHEADER_def)

section \<open>Claims\<close>

text \<open>
  C1. On every transition of the load depth from 0 to 1 the serial-number generator is
  0 again and the registry is empty, whatever the earlier load cycles left behind, and
  the first allocation after it in which \<^verbatim>\<open>RtlAllocateHeap\<close> succeeds receives serial
  number 0, also when failing allocations come before it.
\<close>

theorem first_serial_after_reset:
  assumes d: "load_depth ls = 0" and wf: "wf_ops hsz [] ops" and n: "0 < successes ops"
  shows "load_depth (onLoad ls) = 1 \<and> cycle_start (vldheap (onLoad ls)) \<and>
         serialnumber (vldheap (onLoad ls)) = 0 \<and>
         serials hsz ops (vldheap (onLoad ls)) \<noteq> [] \<and>
         hd (serials hsz ops (vldheap (onLoad ls))) = 0"
proof -
  have z: "serialnumber (vldheap (onLoad ls)) = 0" "load_depth (onLoad ls) = 1"
    using d by (simp_all add: onLoad_def)
  have ss: "serials hsz ops (vldheap (onLoad ls)) = map of_nat [0..<successes ops]"
    by (rule serials_init[OF cycle_start_onLoad[OF d] wf])
  from n obtain m where m: "successes ops = Suc m" by (cases "successes ops") auto
  have "map of_nat [0..<Suc m] = (0 :: 'a word) # map of_nat [Suc 0..<Suc m]"
    by (simp add: upt_rec[of 0] del: upt_Suc)
  with ss m z cycle_start_onLoad[OF d] show ?thesis by simp
qed

theorem first_serial_after_reset_witness:
  "load_depth \<lparr>load_depth = 0, vldheap = (vld_init :: 32 vldstate)\<lparr>serialnumber := 7\<rparr>,
               tracked = 0, reports = [1]\<rparr> = 0 \<and>
   wf_ops 24 [] sample_ops \<and> 0 < successes sample_ops \<and>
   serialnumber (vldheap (onLoad \<lparr>load_depth = 0,
        vldheap = (vld_init :: 32 vldstate)\<lparr>serialnumber := 7\<rparr>,
        tracked = 0, reports = [1]\<rparr>)) = 0 \<and>
   hd (serials 24 sample_ops (vldheap (onLoad \<lparr>load_depth = 0,
        vldheap = (vld_init :: 32 vldstate)\<lparr>serialnumber := 7\<rparr>,
        tracked = 0, reports = [1]\<rparr>))) = 0"
proof -
  let ?ls = "\<lparr>load_depth = 0, vldheap = (vld_init :: 32 vldstate)\<lparr>serialnumber := 7\<rparr>,
              tracked = 0, reports = [1]\<rparr>"
  have d: "load_depth ?ls = 0" by simp
  have wf: "wf_ops 24 [] sample_ops" by (simp add: sample_ops_def VLDBLOCKHEADER_def)
  have n: "0 < successes sample_ops" by (simp add: sample_ops_def)
  from first_serial_after_reset [OF d wf n] d wf n show ?thesis by blast
qed

text \<open>
  C2. After every finite sequence of \<^verbatim>\<open>vldnew\<close> and \<^verbatim>\<open>vlddelete\<close> calls that starts at
  the beginning of a load cycle and keeps the callers' contract (\<open>wf_ops\<close>: in particular
  \<^verbatim>\<open>vlddelete\<close> is given only null or the pointer of a live block), every call has
  returned and the registry is a doubly-linked list without cycles: following \<open>next\<close>
  from the list head visits the live blocks and reaches null; every block of the private
  heap is visited exactly once and nothing else is; the \<open>prev\<close> pointer of the head block
  is null; and for every block \<open>b\<close>, \<open>b.next.prev\<close> and \<open>b.prev.next\<close> address \<open>b\<close> when
  these neighbours exist.
\<close>

theorem registry_invariant:
  assumes st: "cycle_start s0" and wf: "wf_ops hsz [] ops"
  shows "\<exists>s. run hsz ops s0 = Inr s \<and>
     (let xs = live_after hsz [] ops; h = g_vldHeap s in
        next_path h (g_vldBlockList s) xs \<and>
        (\<forall>a. count_list xs a = (if a \<in> dom h then 1 else 0)) \<and>
        (g_vldBlockList s = 0 \<or> (\<exists>b. h (g_vldBlockList s) = Some b \<and> prev b = 0)) \<and>
        (\<forall>a b. h a = Some b \<longrightarrow>
           (next b \<noteq> 0 \<longrightarrow> (\<exists>n. h (next b) = Some n \<and> prev n = a)) \<and>
           (prev b \<noteq> 0 \<longrightarrow> (\<exists>c. h (prev b) = Some c \<and> next c = a))))"
proof -
  from run_inv[OF cycle_start_inv[OF st] wf] obtain s where
    s: "run hsz ops s0 = Inr s" "registry_inv s (live_after hsz [] ops)" by blast
  let ?xs = "live_after hsz [] ops" and ?h = "g_vldHeap s"
  from s(2) have d: "dll ?h 0 (g_vldBlockList s) ?xs" "distinct ?xs" "set ?xs = dom ?h"
    by (auto simp: registry_inv_def)
  have 1: "next_path ?h (g_vldBlockList s) ?xs" by (rule dll_next_path[OF d(1)])
  have 2: "\<forall>a. count_list ?xs a = (if a \<in> dom ?h then 1 else 0)"
    using count_list_distinct[OF d(2)] d(3) by simp
  have 3: "g_vldBlockList s = 0 \<or> (\<exists>b. ?h (g_vldBlockList s) = Some b \<and> prev b = 0)"
    using d(1) by (cases ?xs) (auto split: option.splits)
  have 4: "\<forall>a b. ?h a = Some b \<longrightarrow>
           (next b \<noteq> 0 \<longrightarrow> (\<exists>n. ?h (next b) = Some n \<and> prev n = a)) \<and>
           (prev b \<noteq> 0 \<longrightarrow> (\<exists>c. ?h (prev b) = Some c \<and> next c = a))"
  proof (intro allI impI)
    fix a b assume b: "?h a = Some b"
    then have "a \<in> set ?xs" using d(3) by auto
    from dll_neighbours[OF d(1) this b]
    show "(next b \<noteq> 0 \<longrightarrow> (\<exists>n. ?h (next b) = Some n \<and> prev n = a)) \<and>
           (prev b \<noteq> 0 \<longrightarrow> (\<exists>c. ?h (prev b) = Some c \<and> next c = a))" .
  qed
  from s(1) 1 2 3 4 show ?thesis by (simp add: Let_def)
qed

theorem registry_invariant_witness:
  "cycle_start (vld_init :: 32 vldstate) \<and> wf_ops 24 [] sample_ops \<and>
   (\<exists>s. run 24 sample_ops (vld_init :: 32 vldstate) = Inr s \<and>
        live_after 24 [] sample_ops = [0x3000, 0x1000] \<and>
        next_path (g_vldHeap s) (g_vldBlockList s) [0x3000, 0x1000] \<and>
        0x1000 \<in> dom (g_vldHeap s) \<and> 0x2000 \<notin> dom (g_vldHeap s))"
proof -
  have wf: "wf_ops 24 [] sample_ops" by (simp add: sample_ops_def VLDBLOCKHEADER_def)
  have l: "live_after 24 [] sample_ops = [0x3000, 0x1000]"
    by (simp add: sample_ops_def VLDBLOCKHEADER_def)
  have st: "cycle_start (vld_init :: 32 vldstate)" by (rule cycle_start_init)
  from registry_invariant [OF st wf] obtain s where
    s: "run 24 sample_ops (vld_init :: 32 vldstate) = Inr s"
    "next_path (g_vldHeap s) (g_vldBlockList s) (live_after 24 [] sample_ops)"
    and c: "\<forall>a. count_list (live_after 24 [] sample_ops) a
               = (if a \<in> dom (g_vldHeap s) then 1 else 0)"
    unfolding Let_def by blast
  from c [rule_format, of "0x1000"] have 1: "0x1000 \<in> dom (g_vldHeap s)"
    by (simp add: l split: if_splits)
  from c [rule_format, of "0x2000"] have 2: "0x2000 \<notin> dom (g_vldHeap s)"
    by (simp add: l split: if_splits)
  from s 1 2 st wf l show ?thesis by (simp only: l) blast
qed

text \<open>
  C3. While the load depth stays at 1 or more, through any sequence of loads, unloads and
  tracked allocations of the host, the tracked-allocation count only accumulates (it
  grows by the number of tracked allocations and is never reset) and no report is
  emitted; an unload at depth 2 or more leaves the count and the result of the
  leak-count query unchanged; and an unload emits the final report exactly when it takes
  the depth from 1 to 0.
\<close>

theorem nested_load_accumulates:
  "(stays_active (load_depth ls) es \<longrightarrow>
      tracked (run_events es ls) = tracked ls + count_list es HostAlloc \<and>
      reports (run_events es ls) = reports ls) \<and>
   (2 \<le> load_depth ls \<longrightarrow>
      tracked (onUnload ls) = tracked ls \<and> VLDGetLeaksCount (onUnload ls) = VLDGetLeaksCount ls) \<and>
   (reports (onUnload ls) \<noteq> reports ls \<longleftrightarrow> load_depth ls = 1) \<and>
   (load_depth ls = 1 \<longrightarrow> reports (onUnload ls) = reports ls @ [tracked ls])"
proof (intro conjI impI)
  assume "stays_active (load_depth ls) es"
  from stays_active_run[OF this]
  show "tracked (run_events es ls) = tracked ls + count_list es HostAlloc"
    "reports (run_events es ls) = reports ls" by simp_all
next
  assume "2 \<le> load_depth ls"
  then show "tracked (onUnload ls) = tracked ls"
    "VLDGetLeaksCount (onUnload ls) = VLDGetLeaksCount ls"
    by (auto simp: onUnload_def VLDGetLeaksCount_def GetModuleHandle_def GetProcAddress_def
        queryActiveLeakCount_def)
next
  show "reports (onUnload ls) \<noteq> reports ls \<longleftrightarrow> load_depth ls = 1"
    by (auto simp: onUnload_def)
next
  assume "load_depth ls = 1"
  then show "reports (onUnload ls) = reports ls @ [tracked ls]"
    by (simp add: onUnload_def)
qed

theorem nested_load_accumulates_witness:
  "stays_active (load_depth (onLoad (lifecycle_init :: 32 lifecycle)))
     [HostAlloc, Load, HostAlloc, Unload] \<and>
   tracked (run_events [HostAlloc, Load, HostAlloc, Unload]
              (onLoad (lifecycle_init :: 32 lifecycle))) = 2 \<and>
   reports (run_events [HostAlloc, Load, HostAlloc, Unload]
              (onLoad (lifecycle_init :: 32 lifecycle))) = [] \<and>
   2 \<le> load_depth (run_events [HostAlloc, Load, HostAlloc]
              (onLoad (lifecycle_init :: 32 lifecycle))) \<and>
   VLDGetLeaksCount (onUnload (run_events [HostAlloc, Load, HostAlloc]
              (onLoad (lifecycle_init :: 32 lifecycle)))) = Inr 2 \<and>
   load_depth (run_events [HostAlloc, Load, HostAlloc, Unload]
              (onLoad (lifecycle_init :: 32 lifecycle))) = 1 \<and>
   reports (onUnload (run_events [HostAlloc, Load, HostAlloc, Unload]
              (onLoad (lifecycle_init :: 32 lifecycle)))) = [2]"
  using nested_load_accumulates [of "onLoad (lifecycle_init :: 32 lifecycle)"
      "[HostAlloc, Load, HostAlloc, Unload]"]
    nested_load_accumulates [of "run_events [HostAlloc, Load, HostAlloc]
      (onLoad (lifecycle_init :: 32 lifecycle))" "[]"]
    nested_load_accumulates [of "run_events [HostAlloc, Load, HostAlloc, Unload]
      (onLoad (lifecycle_init :: 32 lifecycle))" "[]"]
  by (simp add: onLoad_def onUnload_def trackAlloc_def lifecycle_init_def
      VLDGetLeaksCount_def GetModuleHandle_def GetProcAddress_def queryActiveLeakCount_def)

text \<open>
  C4. After every unload that takes the load depth from 1 to 0, whatever the tracked
  count and the history before it, the test's leak-count query \<^verbatim>\<open>VLDGetLeaksCount\<close> finds
  no module and returns the sentinel: the \<^verbatim>\<open>UINT\<close> value \<open>- 1\<close>, which read as an \<^verbatim>\<open>int\<close>
  is \<open>- 1\<close>.
\<close>

theorem query_after_unload_sentinel:
  "load_depth ls = 1 \<Longrightarrow>
   load_depth (onUnload ls) = 0 \<and> VLDGetLeaksCount (onUnload ls) = Inr (- 1) \<and>
   sint (- 1 :: 32 word) = - 1"
  by (simp add: onUnload_def VLDGetLeaksCount_def GetModuleHandle_def)

theorem query_after_unload_sentinel_witness:
  "load_depth (trackAlloc (onLoad (lifecycle_init :: 32 lifecycle))) = 1 \<and>
   VLDGetLeaksCount (trackAlloc (onLoad (lifecycle_init :: 32 lifecycle))) = Inr 1 \<and>
   VLDGetLeaksCount (onUnload (trackAlloc (onLoad (lifecycle_init :: 32 lifecycle))))
     = Inr (- 1)"
  using query_after_unload_sentinel [of "trackAlloc (onLoad (lifecycle_init :: 32 lifecycle))"]
  by (simp add: onLoad_def trackAlloc_def lifecycle_init_def VLDGetLeaksCount_def
      GetModuleHandle_def GetProcAddress_def queryActiveLeakCount_def)

text \<open>
  C5. For every block that \<^verbatim>\<open>vldnew(sz, f, l)\<close> returns (a non-null pointer \<open>p\<close>), the
  header recovered from \<open>p\<close> by \<^verbatim>\<open>VLDBLOCKHEADER\<close> holds, right after the call, exactly
  the size, the file and the line that were passed.
\<close>

theorem vldnew_header_roundtrip:
  "vldnew hsz r sz f l s = Inr (p, s') \<Longrightarrow> p \<noteq> 0 \<Longrightarrow>
   \<exists>b. g_vldHeap s' (VLDBLOCKHEADER hsz p) = Some b \<and>
       size_bytes b = sz \<and> file b = f \<and> line b = l"
  by (auto simp: vldnew_def Let_def set_next_def set_prev_def VLDBLOCKHEADER_def
        VLDBLOCKDATA_def split: sum.splits option.splits if_splits)

theorem vldnew_header_roundtrip_witness:
  "\<exists>p s' b. vldnew 24 0x1000 8 0x400 12 (vld_init :: 32 vldstate) = Inr (p, s') \<and> p \<noteq> 0 \<and>
     g_vldHeap s' (VLDBLOCKHEADER 24 p) = Some b \<and>
     size_bytes b = 8 \<and> file b = 0x400 \<and> line b = 12"
proof -
  obtain p s' where e: "vldnew 24 0x1000 8 0x400 12 (vld_init :: 32 vldstate) = Inr (p, s')"
      and p: "p \<noteq> 0"
    by (simp add: vldnew_def vld_init_def Let_def set_next_def set_prev_def VLDBLOCKDATA_def)
  from vldnew_header_roundtrip [OF e p] e p show ?thesis by blast
qed




text \<open>
  C7. When \<^verbatim>\<open>RtlAllocateHeap\<close> fails in a call of \<^verbatim>\<open>vldnew\<close> (a call that has passed the
  three assertions), the call returns null, and the list head, every header of the
  private heap and the serial-number counter are as they were before the call.
\<close>

theorem vldnew_failure_no_mutation:
  "0 < sz \<Longrightarrow> f \<noteq> 0 \<Longrightarrow> 0 < sint l \<Longrightarrow>
   \<exists>s'. vldnew hsz 0 sz f l s = Inr (0, s') \<and>
        g_vldBlockList s' = g_vldBlockList s \<and> g_vldHeap s' = g_vldHeap s \<and>
        serialnumber s' = serialnumber s \<and> heap_mutex s' = heap_mutex s"
  by (simp add: vldnew_def)

theorem vldnew_failure_no_mutation_witness:
  "(0 :: 32 word) < 8 \<and> (0x400 :: 32 word) \<noteq> 0 \<and> 0 < sint (12 :: 32 word) \<and>
   (\<exists>s'. vldnew 24 0 8 0x400 12 (vld_init :: 32 vldstate) = Inr (0, s') \<and>
        g_vldBlockList s' = g_vldBlockList (vld_init :: 32 vldstate) \<and>
        g_vldHeap s' = g_vldHeap (vld_init :: 32 vldstate) \<and>
        serialnumber s' = serialnumber (vld_init :: 32 vldstate) \<and>
        heap_mutex s' = heap_mutex (vld_init :: 32 vldstate))"
  using vldnew_failure_no_mutation [of "8 :: 32 word" "0x400" 12 24 vld_init] by simp

text \<open>
  C8. A call of \<^verbatim>\<open>vldnew\<close> stops at an assertion exactly when the size is 0, the file is
  null or the line is not positive: such a call aborts instead of returning, and a call
  with a positive size, a non-null file and a positive line never reaches an assertion
  failure.
\<close>

theorem vldnew_assert_iff:
  "vldnew hsz r sz f l s = Inl AssertFailed \<longleftrightarrow> sz = 0 \<or> f = 0 \<or> sint l \<le> 0"
  by (auto simp: vldnew_def Let_def set_next_def set_prev_def word_gt_0
        split: sum.splits option.splits if_splits)

theorem vldnew_assert_iff_witness:
  "vldnew 24 0x1000 0 0x400 12 (vld_init :: 32 vldstate) = Inl AssertFailed \<and>
   vldnew 24 0x1000 8 0 12 (vld_init :: 32 vldstate) = Inl AssertFailed \<and>
   vldnew 24 0x1000 8 0x400 (- 3) (vld_init :: 32 vldstate) = Inl AssertFailed \<and>
   vldnew 24 0x1000 8 0x400 12 (vld_init :: 32 vldstate) \<noteq> Inl AssertFailed"
  using vldnew_assert_iff [of 24 "0x1000 :: 32 word" 0 "0x400" 12 vld_init]
    vldnew_assert_iff [of 24 "0x1000 :: 32 word" 8 0 12 vld_init]
    vldnew_assert_iff [of 24 "0x1000 :: 32 word" 8 "0x400" "- 3" vld_init]
    vldnew_assert_iff [of 24 "0x1000 :: 32 word" 8 "0x400" 12 vld_init]
  by simp

text \<open>
  C9 (amended). \<^verbatim>\<open>vldnew\<close> and \<^verbatim>\<open>vlddelete\<close> can be called concurrently from any number of
  threads without harm to the registry. After every interleaving of calls that meet the
  callers' contract, no call has failed, and:
  the mutex is held by exactly the thread that is between lines 184 and 193 or between
  lines 213 and 228, so by one thread at most;
  every statement that reads or writes the list head or a link was executed by a thread
  holding the mutex, every call of \<^verbatim>\<open>RtlAllocateHeap\<close> by a thread not holding it, and
  every call of \<^verbatim>\<open>RtlFreeHeap\<close> by a thread holding it;
  the thread that holds the mutex releases it within five steps of its own, none of
  which waits;
  whenever the mutex is free, the registry is a doubly-linked list without repetition
  that contains every block whose pointer \<^verbatim>\<open>vldnew\<close> has returned and \<^verbatim>\<open>vlddelete\<close> has not
  received;
  and when no call is in progress, these are exactly the listed blocks and exactly the
  allocated blocks.
  The statement does not speak of the serial numbers that concurrent calls assign.
\<close>

theorem concurrent_calls_keep_registry:
  assumes wf: "wf_sched hsz sch (conc_init :: 'a::len config)"
  shows "\<exists>c. crun hsz sch (conc_init :: 'a config) = Inr c \<and>
     (\<forall>t. in_cs (threads c t) \<longleftrightarrow> owner c = Some t) \<and>
     (\<forall>t. (t, Registry, False) \<notin> set (trace c) \<and> (t, OsAlloc, True) \<notin> set (trace c)
           \<and> (t, OsFree, False) \<notin> set (trace c)) \<and>
     (\<forall>t. owner c = Some t \<longrightarrow>
        (\<exists>c'. crun hsz (replicate 5 (t, Go)) c = Inr c' \<and> owner c' = None)) \<and>
     (owner c = None \<longrightarrow>
        dll (g_vldHeap (mem c)) 0 (g_vldBlockList (mem c)) (linked c) \<and>
        distinct (linked c) \<and> set (returned c) \<subseteq> set (linked c)) \<and>
     ((\<forall>t. threads c t = Idle) \<longrightarrow>
        set (linked c) = set (returned c) \<and> dom (g_vldHeap (mem c)) = set (linked c))"
proof -
  from crun_Inv[OF Inv_init wf] obtain c where
    c: "crun hsz sch (conc_init :: 'a config) = Inr c" and I: "Inv c" by blast
  note D = InvD[OF I]
  have 1: "\<forall>t. in_cs (threads c t) \<longleftrightarrow> owner c = Some t" using D(2) by (simp add: LK_def)
  have 2: "\<forall>t. (t, Registry, False) \<notin> set (trace c) \<and> (t, OsAlloc, True) \<notin> set (trace c)
           \<and> (t, OsFree, False) \<notin> set (trace c)"
  proof (intro allI conjI notI)
    fix t assume "(t, Registry, False) \<in> set (trace c)"
    from D(12)[OF this] show False by (simp add: trace_ok_def)
  next
    fix t assume "(t, OsAlloc, True) \<in> set (trace c)"
    from D(12)[OF this] show False by (simp add: trace_ok_def)
  next
    fix t assume "(t, OsFree, False) \<in> set (trace c)"
    from D(12)[OF this] show False by (simp add: trace_ok_def)
  qed
  have 3: "\<forall>t. owner c = Some t \<longrightarrow>
        (\<exists>c'. crun hsz (replicate 5 (t, Go)) c = Inr c' \<and> owner c' = None)"
  proof (intro allI impI)
    fix t assume "owner c = Some t"
    from hold_bounded[OF I this cs_left_le]
    show "\<exists>c'. crun hsz (replicate 5 (t, Go)) c = Inr c' \<and> owner c' = None" .
  qed
  have 4: "owner c = None \<longrightarrow>
        dll (g_vldHeap (mem c)) 0 (g_vldBlockList (mem c)) (linked c) \<and>
        distinct (linked c) \<and> set (returned c) \<subseteq> set (linked c)"
    using D(3,7,10) by (auto simp: SH_def)
  have 5: "(\<forall>t. threads c t = Idle) \<longrightarrow>
        set (linked c) = set (returned c) \<and> dom (g_vldHeap (mem c)) = set (linked c)"
    using quiescent[OF I] by blast
  show ?thesis by (intro exI[of _ c] conjI c 1 2 3 4 5)
qed

theorem concurrent_calls_keep_registry_witness:
  "wf_sched 24 sample_sched (conc_init :: 32 config) \<and>
   (\<exists>c. crun 24 sample_sched conc_init = Inr c \<and> owner c = None \<and>
        (\<forall>t. threads c t = Idle) \<and> returned c = [0x2000] \<and>
        dll (g_vldHeap (mem c)) 0 (g_vldBlockList (mem c)) [0x2000] \<and>
        dom (g_vldHeap (mem c)) = {0x2000} \<and>
        (\<forall>t. (t, Registry, False) \<notin> set (trace c))) \<and>
   wf_sched 24 (take 22 sample_sched) (conc_init :: 32 config) \<and>
   (\<exists>c c'. crun 24 (take 22 sample_sched) conc_init = Inr c \<and> owner c = Some 1 \<and>
        threads c 2 = D_lock 0x1000 \<and> \<not> in_cs (threads c 2) \<and>
        crun 24 (replicate 5 (1, Go)) c = Inr c' \<and> owner c' = None)"
proof -
  have A: "\<exists>c. crun 24 sample_sched conc_init = Inr c \<and> owner c = None \<and>
        (\<forall>t. threads c t = Idle) \<and> returned c = [0x2000] \<and>
        dll (g_vldHeap (mem c)) 0 (g_vldBlockList (mem c)) [0x2000] \<and>
        dom (g_vldHeap (mem c)) = {0x2000} \<and>
        (\<forall>t. (t, Registry, False) \<notin> set (trace c))"
    using concurrent_calls_keep_registry [OF sample_sched_wf]
  proof (elim exE conjE)
    fix c
    assume c: "crun 24 sample_sched conc_init = Inr c"
      and t: "\<forall>t. (t, Registry, False) \<notin> set (trace c) \<and> (t, OsAlloc, True) \<notin> set (trace c)
           \<and> (t, OsFree, False) \<notin> set (trace c)"
      and d: "owner c = None \<longrightarrow>
        dll (g_vldHeap (mem c)) 0 (g_vldBlockList (mem c)) (linked c) \<and>
        distinct (linked c) \<and> set (returned c) \<subseteq> set (linked c)"
      and q: "(\<forall>t. threads c t = Idle) \<longrightarrow>
        set (linked c) = set (returned c) \<and> dom (g_vldHeap (mem c)) = set (linked c)"
    from sample_sched_run c have e: "owner c = None" "\<forall>t. threads c t = Idle"
      "linked c = [0x2000]" "returned c = [0x2000]" by simp_all
    from d e(1,3) have f: "dll (g_vldHeap (mem c)) 0 (g_vldBlockList (mem c)) [0x2000]"
      by simp
    from q e(2,3) have g: "dom (g_vldHeap (mem c)) = {0x2000}" by simp
    from t have h: "\<forall>t. (t, Registry, False) \<notin> set (trace c)" by simp
    show ?thesis by (intro exI[of _ c] conjI c e(1,2,4) f g h)
  qed
  have B: "\<exists>c c'. crun 24 (take 22 sample_sched) conc_init = Inr c \<and> owner c = Some 1 \<and>
        threads c 2 = D_lock 0x1000 \<and> \<not> in_cs (threads c 2) \<and>
        crun 24 (replicate 5 (1, Go)) c = Inr c' \<and> owner c' = None"
    using concurrent_calls_keep_registry [OF sample_prefix_wf]
  proof (elim exE conjE)
    fix c
    assume c: "crun 24 (take 22 sample_sched) conc_init = Inr c"
      and lk: "\<forall>t. in_cs (threads c t) \<longleftrightarrow> owner c = Some t"
      and r: "\<forall>t. owner c = Some t \<longrightarrow>
        (\<exists>c'. crun 24 (replicate 5 (t, Go)) c = Inr c' \<and> owner c' = None)"
    from sample_prefix_run c have h: "owner c = Some 1" "threads c 2 = D_lock 0x1000"
      by simp_all
    from lk h(2) have i: "\<not> in_cs (threads c 2)" by simp
    from r h(1) obtain c' where
      j: "crun 24 (replicate 5 (1, Go)) c = Inr c'" "owner c' = None" by auto
    show ?thesis by (intro exI[of _ c] exI[of _ c'] conjI c h i j)
  qed
  show ?thesis by (intro conjI sample_sched_wf sample_prefix_wf A B)
qed

text \<open>
  The claim as stated fails: in the shortest sequence that allocates and releases one
  block, \<^verbatim>\<open>RtlFreeHeap\<close> is called while the lock is held.
\<close>

theorem lock_held_across_free_counterexample:
  "map_sum id oscalls (run 24 [New 0x1000 8 0x400 12, Delete 0x1018] (vld_init :: 32 vldstate))
     = Inr [(AllocCall 32, False), (FreeCall 0x1000, True)]"
  by (simp add: vldnew_def vlddelete_def vld_init_def Let_def set_next_def set_prev_def
        RtlFreeHeap_def VLDBLOCKDATA_def VLDBLOCKHEADER_def)




end
